theory Spec2Isabelle
  imports Main "HOL-Library.Word" "HOL-Library.Log_Nat" "HOL-Library.Multiset"
begin

unbundle bit_operations_syntax

section \<open>StripedHashMap: a sequential model of \<open>db.collections.StripedHashMap\<close>\<close>

text \<open>
  The class is a hash map with separate chaining, a bank of stripe locks and one table
  lock.  The model below follows one thread through each public method: every method
  takes the map (a record of the object's fields) and returns the map after the call
  together with what the call returns or throws.  Java \<open>int\<close> is \<open>32 word\<close>, read
  with \<open>sint\<close>; \<open>null\<close> is \<open>None\<close>; a bucket's chain of \<open>Node\<close>s is a list whose head is
  the bucket head and whose tail is the \<open>next\<close> link; the bucket array is a list of chains
  and its \<open>length\<close> is the capacity.  \<open>K.hashCode\<close> is a parameter \<open>hc\<close> of the methods
  that hash a key, and \<open>Objects.equals\<close> on keys and values is HOL equality.
\<close>

subsection \<open>Java \<open>int\<close> and \<open>float\<close>\<close>

type_synonym jint = "32 word"

definition MAX_VALUE :: jint where
  "MAX_VALUE = 2147483647"

definition MIN_VALUE :: jint where
  "MIN_VALUE = 2147483648"

text \<open>\<open>Math.max\<close> on \<open>int\<close> compares signed values.\<close>

definition Math_max :: "jint \<Rightarrow> jint \<Rightarrow> jint" where
  "Math_max a b = (if sint a \<le> sint b then b else a)"

text \<open>
  \<open>Integer.highestOneBit\<close> (a method of the Java library): the value with the single
  bit set at the position of the leftmost one bit of its argument, and \<open>0\<close> for \<open>0\<close>.
\<close>

definition highestOneBit :: "jint \<Rightarrow> jint" where
  "highestOneBit i = (if i = 0 then 0 else push_bit (floorlog 2 (unat i) - 1) 1)"

text \<open>
  A Java \<open>float\<close> (IEEE 754 binary32) is \<open>NaN\<close>, an infinity, or a finite value
  \<open>m * 2 ^ e\<close> given by an integer significand and exponent (\<open>0.75f\<close> is \<open>Finite 3 (-2)\<close>).
  A binary32 value has \<open>\<bar>m\<bar> < 2 ^ 24\<close> and \<open>-149 \<le> e\<close>, and is below \<open>2 ^ 128\<close> in
  magnitude.  The sign of a zero is not kept: no operation used by the class reads it.
\<close>

datatype jfloat = NaN | PosInfinity | NegInfinity | Finite int int

definition isNaN :: "jfloat \<Rightarrow> bool" where
  "isNaN f = (f = NaN)"

text \<open>The comparison \<open>f <= 0.0f\<close>; every comparison with \<open>NaN\<close> is false.\<close>

definition float_le_zero :: "jfloat \<Rightarrow> bool" where
  "float_le_zero f =
     (case f of NaN \<Rightarrow> False | PosInfinity \<Rightarrow> False | NegInfinity \<Rightarrow> True
      | Finite m e \<Rightarrow> m \<le> 0)"

text \<open>
  Rounding the exact value \<open>m * 2 ^ e\<close> to binary32, to nearest with ties to even: the
  significand keeps 24 bits and the exponent stays at or above \<open>-149\<close>, so the low \<open>s\<close>
  bits are rounded away; a result of magnitude \<open>2 ^ 128\<close> or more is an infinity.
\<close>

definition roundFloat :: "int \<Rightarrow> int \<Rightarrow> jfloat" where
  "roundFloat m e =
     (let a = \<bar>m\<bar>;
          s = max (bitlen a - 24) (- 149 - e);
          q0 = a div 2 ^ nat s;
          r = a mod 2 ^ nat s;
          half = 2 ^ nat (s - 1);
          q = (if s \<le> 0 then a
               else if half < r \<or> (r = half \<and> odd q0) then q0 + 1 else q0);
          e' = (if s \<le> 0 then e else e + s)
      in if 128 < bitlen q + e' then (if m < 0 then NegInfinity else PosInfinity)
         else Finite (sgn m * q) e')"

text \<open>The widening conversion \<open>int\<close> to \<open>float\<close>.\<close>

definition int_to_float :: "jint \<Rightarrow> jfloat" where
  "int_to_float i = roundFloat (sint i) 0"

text \<open>The product of two floats.\<close>

definition float_mul :: "jfloat \<Rightarrow> jfloat \<Rightarrow> jfloat" where
  "float_mul x y =
     (case (x, y) of
        (NaN, _) \<Rightarrow> NaN
      | (_, NaN) \<Rightarrow> NaN
      | (Finite m1 e1, Finite m2 e2) \<Rightarrow> roundFloat (m1 * m2) (e1 + e2)
      | (Finite m1 e1, PosInfinity) \<Rightarrow>
          (if m1 = 0 then NaN else if 0 < m1 then PosInfinity else NegInfinity)
      | (Finite m1 e1, NegInfinity) \<Rightarrow>
          (if m1 = 0 then NaN else if 0 < m1 then NegInfinity else PosInfinity)
      | (PosInfinity, Finite m2 e2) \<Rightarrow>
          (if m2 = 0 then NaN else if 0 < m2 then PosInfinity else NegInfinity)
      | (NegInfinity, Finite m2 e2) \<Rightarrow>
          (if m2 = 0 then NaN else if 0 < m2 then NegInfinity else PosInfinity)
      | (PosInfinity, PosInfinity) \<Rightarrow> PosInfinity
      | (NegInfinity, NegInfinity) \<Rightarrow> PosInfinity
      | (PosInfinity, NegInfinity) \<Rightarrow> NegInfinity
      | (NegInfinity, PosInfinity) \<Rightarrow> NegInfinity)"

text \<open>
  The narrowing cast \<open>(int) f\<close>: \<open>NaN\<close> is \<open>0\<close>, the value is truncated towards zero
  and values beyond the range of \<open>int\<close> become \<open>MIN_VALUE\<close> or \<open>MAX_VALUE\<close>.
\<close>

definition float_to_int :: "jfloat \<Rightarrow> jint" where
  "float_to_int f =
     (case f of
        NaN \<Rightarrow> 0
      | PosInfinity \<Rightarrow> MAX_VALUE
      | NegInfinity \<Rightarrow> MIN_VALUE
      | Finite m e \<Rightarrow>
          (let t = (if 0 \<le> e then m * 2 ^ nat e else sgn m * (\<bar>m\<bar> div 2 ^ nat (- e)))
           in if t < - 2147483648 then MIN_VALUE
              else if 2147483647 < t then MAX_VALUE
              else word_of_int t))"

subsection \<open>The data model\<close>

record ('k, 'v) Node =
  hash :: jint
  key :: 'k
  val :: "'v option"

type_synonym ('k, 'v) chain = "('k, 'v) Node list"

datatype lock_id = TableLock | StripeLock nat

datatype lock_mode = ReadLock | WriteLock

datatype lock_event = Acquire lock_id lock_mode | Release lock_id lock_mode

text \<open>
  The fields of the object.  \<open>stripeLocks\<close> is an array of \<open>numStripes\<close> locks; what the
  thread does to the locks is recorded in \<open>lockLog\<close>, oldest event first.
\<close>

record ('k, 'v) StripedHashMap =
  table :: "('k, 'v) chain list"
  numStripes :: jint
  loadFactor :: jfloat
  size_field :: jint
  lockLog :: "lock_event list"

datatype exn =
    NullPointerException
  | IllegalArgumentException
  | ArrayIndexOutOfBoundsException
  | NegativeArraySizeException
  | IllegalMonitorStateException

definition lock :: "lock_id \<Rightarrow> lock_mode \<Rightarrow> ('k, 'v) StripedHashMap \<Rightarrow> ('k, 'v) StripedHashMap" where
  "lock l m s = s\<lparr>lockLog := lockLog s @ [Acquire l m]\<rparr>"

definition unlock :: "lock_id \<Rightarrow> lock_mode \<Rightarrow> ('k, 'v) StripedHashMap \<Rightarrow> ('k, 'v) StripedHashMap" where
  "unlock l m s = s\<lparr>lockLog := lockLog s @ [Release l m]\<rparr>"

text \<open>An array access \<open>a[i]\<close> with an \<open>int\<close> index is in bounds when \<open>0 \<le> i < a.length\<close>.\<close>

definition inBounds :: "jint \<Rightarrow> nat \<Rightarrow> bool" where
  "inBounds i n = (0 \<le> sint i \<and> nat (sint i) < n)"

definition arrayLength :: "'a list \<Rightarrow> jint" where
  "arrayLength a = word_of_nat (length a)"

subsection \<open>Static helpers\<close>

definition roundUpToPowerOfTwo :: "jint \<Rightarrow> jint" where
  "roundUpToPowerOfTwo v =
     (let highest = push_bit 1 (highestOneBit (v - 1)) in Math_max 2 highest)"

definition spread :: "jint \<Rightarrow> jint" where
  "spread h = h XOR drop_bit 16 h"

definition indexFor :: "jint \<Rightarrow> jint \<Rightarrow> jint" where
  "indexFor h len = h AND (len - 1)"

definition stripeFor :: "('k, 'v) StripedHashMap \<Rightarrow> jint \<Rightarrow> jint" where
  "stripeFor s h = h AND (numStripes s - 1)"

definition needsResize :: "('k, 'v) StripedHashMap \<Rightarrow> jint \<Rightarrow> jint \<Rightarrow> bool" where
  "needsResize s capacity currentSize =
     (sint (float_to_int (float_mul (int_to_float capacity) (loadFactor s))) < sint currentSize)"

subsection \<open>The constructors\<close>

definition newStripedHashMap :: "jint \<Rightarrow> jfloat \<Rightarrow> jint \<Rightarrow> exn + ('k, 'v) StripedHashMap" where
  "newStripedHashMap initialCapacity lf stripes =
     (if sint initialCapacity \<le> 0 then Inl IllegalArgumentException
      else if float_le_zero lf \<or> isNaN lf then Inl IllegalArgumentException
      else if sint stripes \<le> 0 then Inl IllegalArgumentException
      else
        (let capacity = roundUpToPowerOfTwo initialCapacity
         in Inr \<lparr>table = replicate (nat (sint capacity)) [],
                 numStripes = (if highestOneBit stripes = stripes then stripes
                               else roundUpToPowerOfTwo stripes),
                 loadFactor = lf,
                 size_field = 0,
                 lockLog = []\<rparr>))"

definition DEFAULT_INITIAL_CAPACITY :: jint where
  "DEFAULT_INITIAL_CAPACITY = 16"

definition DEFAULT_NUM_STRIPES :: jint where
  "DEFAULT_NUM_STRIPES = 16"

definition DEFAULT_LOAD_FACTOR :: jfloat where
  "DEFAULT_LOAD_FACTOR = Finite 3 (- 2)"

definition newStripedHashMap_default :: "exn + ('k, 'v) StripedHashMap" where
  "newStripedHashMap_default = newStripedHashMap DEFAULT_INITIAL_CAPACITY DEFAULT_LOAD_FACTOR DEFAULT_NUM_STRIPES"

subsection \<open>Walking a chain\<close>

text \<open>
  The scan \<open>for (node = head; node != null; node = node.next)\<close> with the test
  \<open>node.hash == hash && Objects.equals(node.key, key)\<close>: the first node that matches.
\<close>

fun findNode :: "jint \<Rightarrow> 'k \<Rightarrow> ('k, 'v) chain \<Rightarrow> ('k, 'v) Node option" where
  "findNode h k [] = None"
| "findNode h k (node # next) =
     (if hash node = h \<and> key node = k then Some node else findNode h k next)"

text \<open>The assignment \<open>node.value = value\<close> at the first node that matches.\<close>

fun setNodeValue :: "jint \<Rightarrow> 'k \<Rightarrow> 'v option \<Rightarrow> ('k, 'v) chain \<Rightarrow> ('k, 'v) chain" where
  "setNodeValue h k v [] = []"
| "setNodeValue h k v (node # next) =
     (if hash node = h \<and> key node = k then node\<lparr>val := v\<rparr> # next
      else node # setNodeValue h k v next)"

text \<open>
  Unlinking the first node that matches: \<open>currentTable[index] = node.next\<close> for the
  head, \<open>prev.next = node.next\<close> further down.
\<close>

fun unlinkNode :: "jint \<Rightarrow> 'k \<Rightarrow> ('k, 'v) chain \<Rightarrow> ('k, 'v) chain" where
  "unlinkNode h k [] = []"
| "unlinkNode h k (node # next) =
     (if hash node = h \<and> key node = k then next else node # unlinkNode h k next)"

subsection \<open>Resizing\<close>

text \<open>
  The two nested loops of \<open>resizeIfNeeded\<close>: every node of every old chain is copied to
  the head of its chain in the new array.
\<close>

fun transferChain ::
  "('k, 'v) chain \<Rightarrow> jint \<Rightarrow> ('k, 'v) chain list \<Rightarrow> exn + ('k, 'v) chain list" where
  "transferChain [] newCapacity newTable = Inr newTable"
| "transferChain (node # next) newCapacity newTable =
     (let newIndex = indexFor (hash node) newCapacity
      in if inBounds newIndex (length newTable)
         then transferChain next newCapacity
                (newTable[nat (sint newIndex) :=
                   \<lparr>hash = hash node, key = key node, val = val node\<rparr>
                     # newTable ! nat (sint newIndex)])
         else Inl ArrayIndexOutOfBoundsException)"

fun transferAll ::
  "('k, 'v) chain list \<Rightarrow> jint \<Rightarrow> ('k, 'v) chain list \<Rightarrow> exn + ('k, 'v) chain list" where
  "transferAll [] newCapacity newTable = Inr newTable"
| "transferAll (bucketHead # rest) newCapacity newTable =
     (case transferChain bucketHead newCapacity newTable of
        Inl e \<Rightarrow> Inl e
      | Inr newTable' \<Rightarrow> transferAll rest newCapacity newTable')"

text \<open>
  \<open>resizeIfNeeded\<close> gives up the table read lock, takes the write lock, checks again and
  rebuilds the bucket array at twice the length.  Its \<open>finally\<close> block takes the read
  lock back and releases the write lock on every path, also when \<open>new Node[newCapacity]\<close>
  throws because the doubled length is negative.
\<close>

definition resizeIfNeeded :: "('k, 'v) StripedHashMap \<Rightarrow> ('k, 'v) StripedHashMap \<times> (exn + unit)" where
  "resizeIfNeeded s =
     (let s1 = lock TableLock WriteLock (unlock TableLock ReadLock s);
          current = table s1;
          finally = (\<lambda>s'. unlock TableLock WriteLock (lock TableLock ReadLock s'))
      in if \<not> needsResize s1 (arrayLength current) (size_field s1) then (finally s1, Inr ())
         else
           (let newCapacity = push_bit 1 (arrayLength current)
            in if sint newCapacity < 0 then (finally s1, Inl NegativeArraySizeException)
               else
                 (case transferAll current newCapacity (replicate (nat (sint newCapacity)) []) of
                    Inl e \<Rightarrow> (finally s1, Inl e)
                  | Inr newTable \<Rightarrow> (finally (s1\<lparr>table := newTable\<rparr>), Inr ()))))"

subsection \<open>The keyed operations\<close>

text \<open>
  Each keyed method starts with \<open>Objects.requireNonNull(key)\<close>, takes the table read
  lock, reads the table once, computes hash, bucket index and stripe, and takes the
  stripe's lock.  \<open>stripeLocks[stripe]\<close> is read before the inner \<open>try\<close>, the bucket inside
  it.  When \<open>resizeIfNeeded\<close> throws in an inserting method, the stripe's write lock has
  already been released, so the \<open>unlock\<close> of the inner \<open>finally\<close> block throws
  \<open>IllegalMonitorStateException\<close>, which replaces the exception in flight.
\<close>

definition put ::
  "('k \<Rightarrow> jint) \<Rightarrow> ('k, 'v) StripedHashMap \<Rightarrow> 'k option \<Rightarrow> 'v option
     \<Rightarrow> ('k, 'v) StripedHashMap \<times> (exn + 'v option)" where
  "put hc s key_arg value_arg =
     (case key_arg of
        None \<Rightarrow> (s, Inl NullPointerException)
      | Some k \<Rightarrow>
          (let s1 = lock TableLock ReadLock s;
               currentTable = table s1;
               h = spread (hc k);
               index = indexFor h (arrayLength currentTable);
               stripe = stripeFor s1 h
           in if \<not> inBounds stripe (nat (sint (numStripes s1)))
              then (unlock TableLock ReadLock s1, Inl ArrayIndexOutOfBoundsException)
              else
                (let bucketLock = StripeLock (nat (sint stripe));
                     s2 = lock bucketLock WriteLock s1
                 in if \<not> inBounds index (length currentTable)
                    then (unlock TableLock ReadLock (unlock bucketLock WriteLock s2),
                          Inl ArrayIndexOutOfBoundsException)
                    else
                      (let i = nat (sint index); head = currentTable ! i
                       in case findNode h k head of
                            Some node \<Rightarrow>
                              (unlock TableLock ReadLock (unlock bucketLock WriteLock
                                 (s2\<lparr>table := currentTable[i := setNodeValue h k value_arg head]\<rparr>)),
                               Inr (val node))
                          | None \<Rightarrow>
                              (let newHead = \<lparr>hash = h, key = k, val = value_arg\<rparr>;
                                   s3 = s2\<lparr>table := currentTable[i := newHead # head],
                                           size_field := size_field s2 + 1\<rparr>;
                                   newSize = size_field s3
                               in if needsResize s3 (arrayLength currentTable) newSize
                                  then
                                    (case resizeIfNeeded (unlock bucketLock WriteLock s3) of
                                       (s4, Inl e) \<Rightarrow>
                                         (unlock TableLock ReadLock s4,
                                          Inl IllegalMonitorStateException)
                                     | (s4, Inr _) \<Rightarrow>
                                         (unlock TableLock ReadLock (unlock bucketLock WriteLock
                                            (lock bucketLock WriteLock s4)),
                                          Inr None))
                                  else
                                    (unlock TableLock ReadLock (unlock bucketLock WriteLock s3),
                                     Inr None))))))"

definition get ::
  "('k \<Rightarrow> jint) \<Rightarrow> ('k, 'v) StripedHashMap \<Rightarrow> 'k option
     \<Rightarrow> ('k, 'v) StripedHashMap \<times> (exn + 'v option)" where
  "get hc s key_arg =
     (case key_arg of
        None \<Rightarrow> (s, Inl NullPointerException)
      | Some k \<Rightarrow>
          (let s1 = lock TableLock ReadLock s;
               currentTable = table s1;
               h = spread (hc k);
               index = indexFor h (arrayLength currentTable);
               stripe = stripeFor s1 h
           in if \<not> inBounds stripe (nat (sint (numStripes s1)))
              then (unlock TableLock ReadLock s1, Inl ArrayIndexOutOfBoundsException)
              else
                (let bucketLock = StripeLock (nat (sint stripe));
                     s2 = lock bucketLock ReadLock s1
                 in if \<not> inBounds index (length currentTable)
                    then (unlock TableLock ReadLock (unlock bucketLock ReadLock s2),
                          Inl ArrayIndexOutOfBoundsException)
                    else
                      (case findNode h k (currentTable ! nat (sint index)) of
                         Some node \<Rightarrow>
                           (unlock TableLock ReadLock (unlock bucketLock ReadLock s2),
                            Inr (val node))
                       | None \<Rightarrow>
                           (unlock TableLock ReadLock (unlock bucketLock ReadLock s2),
                            Inr None)))))"

definition remove ::
  "('k \<Rightarrow> jint) \<Rightarrow> ('k, 'v) StripedHashMap \<Rightarrow> 'k option
     \<Rightarrow> ('k, 'v) StripedHashMap \<times> (exn + 'v option)" where
  "remove hc s key_arg =
     (case key_arg of
        None \<Rightarrow> (s, Inl NullPointerException)
      | Some k \<Rightarrow>
          (let s1 = lock TableLock ReadLock s;
               currentTable = table s1;
               h = spread (hc k);
               index = indexFor h (arrayLength currentTable);
               stripe = stripeFor s1 h
           in if \<not> inBounds stripe (nat (sint (numStripes s1)))
              then (unlock TableLock ReadLock s1, Inl ArrayIndexOutOfBoundsException)
              else
                (let bucketLock = StripeLock (nat (sint stripe));
                     s2 = lock bucketLock WriteLock s1
                 in if \<not> inBounds index (length currentTable)
                    then (unlock TableLock ReadLock (unlock bucketLock WriteLock s2),
                          Inl ArrayIndexOutOfBoundsException)
                    else
                      (let i = nat (sint index); head = currentTable ! i
                       in case findNode h k head of
                            Some node \<Rightarrow>
                              (unlock TableLock ReadLock (unlock bucketLock WriteLock
                                 (s2\<lparr>table := currentTable[i := unlinkNode h k head],
                                     size_field := size_field s2 - 1\<rparr>)),
                               Inr (val node))
                          | None \<Rightarrow>
                              (unlock TableLock ReadLock (unlock bucketLock WriteLock s2),
                               Inr None)))))"

definition containsKey ::
  "('k \<Rightarrow> jint) \<Rightarrow> ('k, 'v) StripedHashMap \<Rightarrow> 'k option
     \<Rightarrow> ('k, 'v) StripedHashMap \<times> (exn + bool)" where
  "containsKey hc s key_arg =
     (case get hc s key_arg of
        (s', Inl e) \<Rightarrow> (s', Inl e)
      | (s', Inr v) \<Rightarrow> (s', Inr (v \<noteq> None)))"

definition size_method :: "('k, 'v) StripedHashMap \<Rightarrow> jint" where
  "size_method s = size_field s"

definition clear :: "('k, 'v) StripedHashMap \<Rightarrow> ('k, 'v) StripedHashMap" where
  "clear s =
     (let s1 = lock TableLock WriteLock s;
          currentTable = table s1
      in unlock TableLock WriteLock
           (s1\<lparr>table := map (\<lambda>_. []) currentTable, size_field := 0\<rparr>))"

definition putIfAbsent ::
  "('k \<Rightarrow> jint) \<Rightarrow> ('k, 'v) StripedHashMap \<Rightarrow> 'k option \<Rightarrow> 'v option
     \<Rightarrow> ('k, 'v) StripedHashMap \<times> (exn + 'v option)" where
  "putIfAbsent hc s key_arg value_arg =
     (case key_arg of
        None \<Rightarrow> (s, Inl NullPointerException)
      | Some k \<Rightarrow>
          (let s1 = lock TableLock ReadLock s;
               currentTable = table s1;
               h = spread (hc k);
               index = indexFor h (arrayLength currentTable);
               stripe = stripeFor s1 h
           in if \<not> inBounds stripe (nat (sint (numStripes s1)))
              then (unlock TableLock ReadLock s1, Inl ArrayIndexOutOfBoundsException)
              else
                (let bucketLock = StripeLock (nat (sint stripe));
                     s2 = lock bucketLock WriteLock s1
                 in if \<not> inBounds index (length currentTable)
                    then (unlock TableLock ReadLock (unlock bucketLock WriteLock s2),
                          Inl ArrayIndexOutOfBoundsException)
                    else
                      (let i = nat (sint index)
                       in case findNode h k (currentTable ! i) of
                            Some node \<Rightarrow>
                              (unlock TableLock ReadLock (unlock bucketLock WriteLock s2),
                               Inr (val node))
                          | None \<Rightarrow>
                              (let newHead = \<lparr>hash = h, key = k, val = value_arg\<rparr>;
                                   s3 = s2\<lparr>table := currentTable[i := newHead # currentTable ! i],
                                           size_field := size_field s2 + 1\<rparr>;
                                   newSize = size_field s3
                               in if needsResize s3 (arrayLength currentTable) newSize
                                  then
                                    (case resizeIfNeeded (unlock bucketLock WriteLock s3) of
                                       (s4, Inl e) \<Rightarrow>
                                         (unlock TableLock ReadLock s4,
                                          Inl IllegalMonitorStateException)
                                     | (s4, Inr _) \<Rightarrow>
                                         (unlock TableLock ReadLock (unlock bucketLock WriteLock
                                            (lock bucketLock WriteLock s4)),
                                          Inr None))
                                  else
                                    (unlock TableLock ReadLock (unlock bucketLock WriteLock s3),
                                     Inr None))))))"

definition replace ::
  "('k \<Rightarrow> jint) \<Rightarrow> ('k, 'v) StripedHashMap \<Rightarrow> 'k option \<Rightarrow> 'v option \<Rightarrow> 'v option
     \<Rightarrow> ('k, 'v) StripedHashMap \<times> (exn + bool)" where
  "replace hc s key_arg oldValue newValue =
     (case key_arg of
        None \<Rightarrow> (s, Inl NullPointerException)
      | Some k \<Rightarrow>
          (let s1 = lock TableLock ReadLock s;
               currentTable = table s1;
               h = spread (hc k);
               index = indexFor h (arrayLength currentTable);
               stripe = stripeFor s1 h
           in if \<not> inBounds stripe (nat (sint (numStripes s1)))
              then (unlock TableLock ReadLock s1, Inl ArrayIndexOutOfBoundsException)
              else
                (let bucketLock = StripeLock (nat (sint stripe));
                     s2 = lock bucketLock WriteLock s1
                 in if \<not> inBounds index (length currentTable)
                    then (unlock TableLock ReadLock (unlock bucketLock WriteLock s2),
                          Inl ArrayIndexOutOfBoundsException)
                    else
                      (let i = nat (sint index)
                       in case findNode h k (currentTable ! i) of
                            Some node \<Rightarrow>
                              (if val node = oldValue
                               then
                                 (unlock TableLock ReadLock (unlock bucketLock WriteLock
                                    (s2\<lparr>table :=
                                          currentTable[i := setNodeValue h k newValue (currentTable ! i)]\<rparr>)),
                                  Inr True)
                               else
                                 (unlock TableLock ReadLock (unlock bucketLock WriteLock s2),
                                  Inr False))
                          | None \<Rightarrow>
                              (unlock TableLock ReadLock (unlock bucketLock WriteLock s2),
                               Inr False)))))"

text \<open>
  The generator of \<open>computeIfAbsent\<close> is a Java function and may have effects of its
  own: it is a function on a state \<open>'u\<close> of the caller, which the method threads
  through.  The caller's state after the call tells how often the generator ran.
\<close>

definition computeIfAbsent ::
  "('k \<Rightarrow> jint) \<Rightarrow> ('k, 'v) StripedHashMap \<Rightarrow> 'k option
     \<Rightarrow> ('k \<Rightarrow> 'u \<Rightarrow> 'v option \<times> 'u) option \<Rightarrow> 'u
     \<Rightarrow> ('k, 'v) StripedHashMap \<times> 'u \<times> (exn + 'v option)" where
  "computeIfAbsent hc s key_arg mappingFunction u =
     (case key_arg of
        None \<Rightarrow> (s, u, Inl NullPointerException)
      | Some k \<Rightarrow>
       (case mappingFunction of
          None \<Rightarrow> (s, u, Inl NullPointerException)
        | Some f \<Rightarrow>
          (let s1 = lock TableLock ReadLock s;
               currentTable = table s1;
               h = spread (hc k);
               index = indexFor h (arrayLength currentTable);
               stripe = stripeFor s1 h
           in if \<not> inBounds stripe (nat (sint (numStripes s1)))
              then (unlock TableLock ReadLock s1, u, Inl ArrayIndexOutOfBoundsException)
              else
                (let bucketLock = StripeLock (nat (sint stripe));
                     s2 = lock bucketLock WriteLock s1
                 in if \<not> inBounds index (length currentTable)
                    then (unlock TableLock ReadLock (unlock bucketLock WriteLock s2), u,
                          Inl ArrayIndexOutOfBoundsException)
                    else
                      (let i = nat (sint index)
                       in case findNode h k (currentTable ! i) of
                            Some node \<Rightarrow>
                              (unlock TableLock ReadLock (unlock bucketLock WriteLock s2), u,
                               Inr (val node))
                          | None \<Rightarrow>
                              (let (newValue, u') = f k u;
                                   newHead = \<lparr>hash = h, key = k, val = newValue\<rparr>;
                                   s3 = s2\<lparr>table := currentTable[i := newHead # currentTable ! i],
                                           size_field := size_field s2 + 1\<rparr>;
                                   newSize = size_field s3
                               in if needsResize s3 (arrayLength currentTable) newSize
                                  then
                                    (case resizeIfNeeded (unlock bucketLock WriteLock s3) of
                                       (s4, Inl e) \<Rightarrow>
                                         (unlock TableLock ReadLock s4, u',
                                          Inl IllegalMonitorStateException)
                                     | (s4, Inr _) \<Rightarrow>
                                         (unlock TableLock ReadLock (unlock bucketLock WriteLock
                                            (lock bucketLock WriteLock s4)),
                                          u', Inr newValue))
                                  else
                                    (unlock TableLock ReadLock (unlock bucketLock WriteLock s3),
                                     u', Inr newValue)))))))"

subsection \<open>Iteration\<close>

text \<open>
  The visitor of \<open>forEach\<close> acts on a state \<open>'u\<close> of the caller.  The loop over the
  indices of one stripe steps by \<open>numStripes\<close> in \<open>int\<close> arithmetic and as a function of
  its arguments need not end (a step of \<open>0\<close>), so both loops are partial functions:
  \<open>None\<close> is a run that never returns.
\<close>

fun visitChain :: "('k \<Rightarrow> 'v option \<Rightarrow> 'u \<Rightarrow> 'u) \<Rightarrow> ('k, 'v) chain \<Rightarrow> 'u \<Rightarrow> 'u" where
  "visitChain action [] u = u"
| "visitChain action (node # next) u = visitChain action next (action (key node) (val node) u)"

partial_function (option) forEachIndex ::
  "('k, 'v) chain list \<Rightarrow> jint \<Rightarrow> ('k \<Rightarrow> 'v option \<Rightarrow> 'u \<Rightarrow> 'u) \<Rightarrow> jint \<Rightarrow> 'u
     \<Rightarrow> ('u \<times> (exn + unit)) option" where
  "forEachIndex currentTable stripes action index u =
     (if sint index < sint (arrayLength currentTable)
      then
        (if inBounds index (length currentTable)
         then forEachIndex currentTable stripes action (index + stripes)
                (visitChain action (currentTable ! nat (sint index)) u)
         else Some (u, Inl ArrayIndexOutOfBoundsException))
      else Some (u, Inr ()))"

partial_function (option) forEachStripe ::
  "('k, 'v) StripedHashMap \<Rightarrow> ('k, 'v) chain list \<Rightarrow> ('k \<Rightarrow> 'v option \<Rightarrow> 'u \<Rightarrow> 'u) \<Rightarrow> jint \<Rightarrow> 'u
     \<Rightarrow> (('k, 'v) StripedHashMap \<times> 'u \<times> (exn + unit)) option" where
  "forEachStripe s currentTable action stripe u =
     (if sint stripe < sint (numStripes s)
      then
        (if \<not> inBounds stripe (nat (sint (numStripes s)))
         then Some (s, u, Inl ArrayIndexOutOfBoundsException)
         else
           Option.bind
             (forEachIndex currentTable (numStripes s) action stripe u)
             (\<lambda>(u', r).
                case r of
                  Inl e \<Rightarrow>
                    Some (unlock (StripeLock (nat (sint stripe))) ReadLock
                            (lock (StripeLock (nat (sint stripe))) ReadLock s), u', Inl e)
                | Inr _ \<Rightarrow>
                    forEachStripe
                      (unlock (StripeLock (nat (sint stripe))) ReadLock
                         (lock (StripeLock (nat (sint stripe))) ReadLock s))
                      currentTable action (stripe + 1) u'))
      else Some (s, u, Inr ()))"

definition forEach ::
  "('k, 'v) StripedHashMap \<Rightarrow> ('k \<Rightarrow> 'v option \<Rightarrow> 'u \<Rightarrow> 'u) option \<Rightarrow> 'u
     \<Rightarrow> (('k, 'v) StripedHashMap \<times> 'u \<times> (exn + unit)) option" where
  "forEach s action_arg u =
     (case action_arg of
        None \<Rightarrow> Some (s, u, Inl NullPointerException)
      | Some action \<Rightarrow>
          (let s1 = lock TableLock ReadLock s;
               currentTable = table s1
           in Option.bind (forEachStripe s1 currentTable action 0 u)
                (\<lambda>(s2, u', r). Some (unlock TableLock ReadLock s2, u', r))))"

subsection \<open>Notions used to state the properties\<close>

text \<open>All nodes of the table, bucket by bucket.\<close>

definition entries :: "('k, 'v) StripedHashMap \<Rightarrow> ('k, 'v) Node list" where
  "entries s = concat (table s)"

text \<open>The bucket a key belongs to in a given bucket array.\<close>

definition bucketOf :: "('k \<Rightarrow> jint) \<Rightarrow> ('k, 'v) chain list \<Rightarrow> 'k \<Rightarrow> nat" where
  "bucketOf hc t k = nat (sint (indexFor (spread (hc k)) (arrayLength t)))"

text \<open>
  The state invariant of the map: the capacity is a power of two between \<open>2\<close> and
  \<open>2 ^ 30\<close>, the number of stripes is a power of two, every node carries the spread hash
  of its key and sits in the bucket that hash selects, no chain holds a key twice, and
  the counter is the number of nodes.
\<close>

definition map_inv :: "('k \<Rightarrow> jint) \<Rightarrow> ('k, 'v) StripedHashMap \<Rightarrow> bool" where
  "map_inv hc s =
     ((\<exists>j \<in> {1..30}. length (table s) = 2 ^ j) \<and>
      (\<exists>j \<in> {0..30}. numStripes s = 2 ^ j) \<and>
      (\<forall>i \<in> {..<length (table s)}. \<forall>n \<in> set (table s ! i).
          hash n = spread (hc (key n)) \<and> bucketOf hc (table s) (key n) = i) \<and>
      (\<forall>i \<in> {..<length (table s)}. distinct (map key (table s ! i))) \<and>
      size_field s = word_of_nat (length (entries s)))"

text \<open>The node that the scan of a keyed method finds for a key, if any.\<close>

definition lookup :: "('k \<Rightarrow> jint) \<Rightarrow> ('k, 'v) StripedHashMap \<Rightarrow> 'k \<Rightarrow> ('k, 'v) Node option" where
  "lookup hc s k = findNode (spread (hc k)) k (table s ! bucketOf hc (table s) k)"

text \<open>
  The bucket array of twice the length in which every node sits in the bucket its hash
  selects, later nodes of the old array first.
\<close>

definition rehash :: "('k, 'v) chain list \<Rightarrow> ('k, 'v) chain list" where
  "rehash t =
     map (\<lambda>j. rev (filter (\<lambda>n. nat (sint (indexFor (hash n) (push_bit 1 (arrayLength t)))) = j)
                      (concat t)))
       [0..<2 * length t]"

text \<open>
  The two steps of an inserting call on an absent key: the new node at the head of its
  bucket with the counter incremented, and then the growth of the table when the
  counter is over the threshold and the doubled length is still an \<open>int\<close>.
\<close>

definition insertNode ::
  "('k \<Rightarrow> jint) \<Rightarrow> ('k, 'v) StripedHashMap \<Rightarrow> 'k \<Rightarrow> 'v option \<Rightarrow> ('k, 'v) StripedHashMap" where
  "insertNode hc s k v =
     s\<lparr>table := (table s)[bucketOf hc (table s) k :=
                    \<lparr>hash = spread (hc k), key = k, val = v\<rparr>
                      # table s ! bucketOf hc (table s) k],
       size_field := size_field s + 1\<rparr>"

definition grow :: "('k, 'v) StripedHashMap \<Rightarrow> ('k, 'v) StripedHashMap" where
  "grow s =
     (if needsResize s (arrayLength (table s)) (size_field s) \<and> length (table s) < 2 ^ 30
      then s\<lparr>table := rehash (table s)\<rparr> else s)"

text \<open>A sequence of \<open>put\<close> calls, whatever each call returns or throws.\<close>

fun putAll ::
  "('k \<Rightarrow> jint) \<Rightarrow> ('k, 'v) StripedHashMap \<Rightarrow> ('k \<times> 'v option) list \<Rightarrow> ('k, 'v) StripedHashMap" where
  "putAll hc s [] = s"
| "putAll hc s ((k, v) # kvs) = putAll hc (fst (put hc s (Some k) v)) kvs"

text \<open>
  A float of the binary32 format, and the comparison \<open>cap * f < n\<close> of the exact
  product with an integer.
\<close>

definition isBinary32 :: "jfloat \<Rightarrow> bool" where
  "isBinary32 f =
     (case f of Finite m e \<Rightarrow> \<bar>m\<bar> < 2 ^ 24 \<and> - 149 \<le> e \<and> bitlen \<bar>m\<bar> + e \<le> 128 | _ \<Rightarrow> True)"

definition exceedsProduct :: "int \<Rightarrow> nat \<Rightarrow> jfloat \<Rightarrow> bool" where
  "exceedsProduct n cap f =
     (case f of
        NaN \<Rightarrow> False
      | PosInfinity \<Rightarrow> False
      | NegInfinity \<Rightarrow> True
      | Finite m e \<Rightarrow>
          (if 0 \<le> e then int cap * m * 2 ^ nat e < n else int cap * m < n * 2 ^ nat (- e)))"

text \<open>At most one entry with a given key exists in the whole table.\<close>

definition uniqueKeys :: "('k, 'v) StripedHashMap \<Rightarrow> bool" where
  "uniqueKeys s = distinct (map key (entries s))"

text \<open>\<open>p\<close> is the least power of two that is at least \<open>x\<close>.\<close>

definition leastPowerOfTwo :: "int \<Rightarrow> int \<Rightarrow> bool" where
  "leastPowerOfTwo p x = (\<exists>j. p = 2 ^ j \<and> x \<le> p \<and> (\<forall>i. x \<le> 2 ^ i \<longrightarrow> p \<le> 2 ^ i))"

text \<open>The bucket indices that \<open>forEach\<close> is to visit under one stripe, in rising order.\<close>

definition stripeIndices :: "nat \<Rightarrow> nat \<Rightarrow> nat \<Rightarrow> nat list" where
  "stripeIndices stripes len stripe = filter (\<lambda>i. i mod stripes = stripe) [0..<len]"

definition visitOrder :: "nat \<Rightarrow> nat \<Rightarrow> nat list" where
  "visitOrder stripes len = concat (map (stripeIndices stripes len) [0..<stripes])"

text \<open>
  The states a single thread can bring a map into: a constructor has returned it, or a
  public method has been called on a reachable map (whatever the call returned or
  threw).  The callbacks of \<open>computeIfAbsent\<close> and \<open>forEach\<close> here carry no state of
  their own, which does not restrict the maps they lead to.
\<close>

inductive reachable :: "('k \<Rightarrow> jint) \<Rightarrow> ('k, 'v) StripedHashMap \<Rightarrow> bool"
  for hc :: "'k \<Rightarrow> jint" where
  r_new: "newStripedHashMap ic lf ns = Inr s \<Longrightarrow> reachable hc s"
| r_put: "reachable hc s \<Longrightarrow> reachable hc (fst (put hc s key_arg v))"
| r_get: "reachable hc s \<Longrightarrow> reachable hc (fst (get hc s key_arg))"
| r_remove: "reachable hc s \<Longrightarrow> reachable hc (fst (remove hc s key_arg))"
| r_containsKey: "reachable hc s \<Longrightarrow> reachable hc (fst (containsKey hc s key_arg))"
| r_clear: "reachable hc s \<Longrightarrow> reachable hc (clear s)"
| r_putIfAbsent: "reachable hc s \<Longrightarrow> reachable hc (fst (putIfAbsent hc s key_arg v))"
| r_replace: "reachable hc s \<Longrightarrow> reachable hc (fst (replace hc s key_arg old new))"
| r_computeIfAbsent:
    "reachable hc s \<Longrightarrow>
       reachable hc (fst (computeIfAbsent hc s key_arg (g :: ('k \<Rightarrow> unit \<Rightarrow> 'v option \<times> unit) option) ()))"
| r_forEach:
    "reachable hc s \<Longrightarrow>
       forEach s (a :: ('k \<Rightarrow> 'v option \<Rightarrow> unit \<Rightarrow> unit) option) () = Some (s', u', r) \<Longrightarrow>
       reachable hc s'"

text \<open>
  The map \<open>new StripedHashMap<Integer, Integer>()\<close>, with \<open>Integer.hashCode\<close> the value
  itself, for the concrete runs below.
\<close>

definition intHash :: "jint \<Rightarrow> jint" where
  "intHash k = k"

definition defaultMap :: "(jint, jint) StripedHashMap" where
  "defaultMap = \<lparr>table = replicate 16 [], numStripes = 16, loadFactor = Finite 3 (- 2),
                  size_field = 0, lockLog = []\<rparr>"

text \<open>
  The map \<open>new StripedHashMap<Integer, Integer>(1 << 30, 0x1p-40f, 16)\<close>: the largest
  capacity, and a load factor of \<open>2 ^ -40\<close>, under which the first insert is over the
  threshold.
\<close>

definition maxMap :: "(jint, jint) StripedHashMap" where
  "maxMap = \<lparr>table = replicate (2 ^ 30) [], numStripes = 16, loadFactor = Finite 1 (- 40),
              size_field = 0, lockLog = []\<rparr>"

section \<open>Properties\<close>

subsection \<open>Machine integers\<close>

lemma and_pow2_minus1: "(h::32 word) AND (2 ^ j - 1) = take_bit j h"
  by (simp add: take_bit_eq_mask mask_eq_exp_minus_1)

lemma uint_take_bit_lt: "j \<le> 30 \<Longrightarrow> uint (take_bit j (h::32 word)) < 2 ^ 30"
proof -
  assume j: "j \<le> 30"
  have "uint (take_bit j h) < 2 ^ j"
    by (simp add: unsigned_take_bit_eq)
  also have "(2::int) ^ j \<le> 2 ^ 30"
    using j by (intro power_increasing) simp_all
  finally show ?thesis .
qed

lemma sint_small: "uint (w::32 word) < 2 ^ 31 \<Longrightarrow> sint w = uint w"
proof -
  assume a: "uint w < 2 ^ 31"
  have "- (2 ^ 31) \<le> (0::int)" by simp
  also have "0 \<le> uint w" by simp
  finally have "- (2 ^ 31) \<le> uint w" .
  then have "signed_take_bit 31 (uint w) = uint w"
    using a by (rule signed_take_bit_int_eq_self)
  then show ?thesis by (simp add: sint_uint)
qed

lemma sint_take_bit: "j \<le> 30 \<Longrightarrow> sint (take_bit j (h::32 word)) = uint (take_bit j h)"
  using uint_take_bit_lt [of j h] by (intro sint_small) simp

lemma sint_pow2: "j \<le> 30 \<Longrightarrow> sint (2 ^ j :: 32 word) = 2 ^ j"
proof -
  assume j: "j \<le> 30"
  have lt: "(2::int) ^ j < 2 ^ 31"
    using j by (intro power_strict_increasing) simp_all
  have "uint (2 ^ j :: 32 word) = 2 ^ j"
    using j by (intro uint_2p) (simp add: word_2p_lem word_size)
  then show ?thesis using lt by (simp add: sint_small)
qed

lemma indexFor_inBounds:
  assumes "j \<le> 30" "length t = 2 ^ j"
  shows "inBounds (indexFor h (arrayLength t)) (length t)"
proof -
  have "indexFor h (arrayLength t) = take_bit j h"
    using assms by (simp add: indexFor_def arrayLength_def and_pow2_minus1)
  moreover have "unat (take_bit j h) < 2 ^ j" by (simp add: unsigned_take_bit_eq)
  ultimately show ?thesis
    using assms sint_take_bit [of j h] by (simp add: inBounds_def)
qed

subsection \<open>Locks, chains and bucket arrays\<close>

lemma lock_fields [simp]:
  "table (lock l m s) = table s" "numStripes (lock l m s) = numStripes s"
  "loadFactor (lock l m s) = loadFactor s" "size_field (lock l m s) = size_field s"
  by (simp_all add: lock_def)

lemma unlock_fields [simp]:
  "table (unlock l m s) = table s" "numStripes (unlock l m s) = numStripes s"
  "loadFactor (unlock l m s) = loadFactor s" "size_field (unlock l m s) = size_field s"
  by (simp_all add: unlock_def)

lemma needsResize_loadFactor:
  "loadFactor s' = loadFactor s \<Longrightarrow> needsResize s' c n = needsResize s c n"
  by (simp add: needsResize_def)

lemma stripeFor_inBounds:
  assumes "j \<le> 30" "numStripes s = 2 ^ j"
  shows "inBounds (stripeFor s h) (nat (sint (numStripes s)))"
proof -
  have "stripeFor s h = take_bit j h"
    using assms by (simp add: stripeFor_def and_pow2_minus1)
  moreover have "unat (take_bit j h) < 2 ^ j" by (simp add: unsigned_take_bit_eq)
  ultimately show ?thesis
    using assms sint_take_bit [of j h] sint_pow2 [of j] by (simp add: inBounds_def nat_power_eq)
qed

lemma findNode_None_iff:
  "findNode h k c = None \<longleftrightarrow> (\<forall>n \<in> set c. \<not> (hash n = h \<and> key n = k))"
  by (induction c) auto

lemma findNode_SomeD:
  "findNode h k c = Some n \<Longrightarrow> n \<in> set c \<and> hash n = h \<and> key n = k"
  by (induction c) (auto split: if_splits)

lemma findNode_unique:
  "distinct (map key c) \<Longrightarrow> n \<in> set c \<Longrightarrow> hash n = h \<Longrightarrow> key n = k \<Longrightarrow> findNode h k c = Some n"
  by (induction c) (auto simp: rev_image_eqI)

lemma map_key_setNodeValue [simp]: "map key (setNodeValue h k v c) = map key c"
  by (induction c) auto

lemma map_hash_setNodeValue [simp]: "map hash (setNodeValue h k v c) = map hash c"
  by (induction c) auto

lemma length_setNodeValue [simp]: "length (setNodeValue h k v c) = length c"
  by (induction c) auto

lemma findNode_setNodeValue_same:
  "findNode h k (setNodeValue h k v c) = map_option (\<lambda>n. n\<lparr>val := v\<rparr>) (findNode h k c)"
  by (induction c) auto

lemma findNode_setNodeValue_other:
  "k' \<noteq> k \<Longrightarrow> findNode h' k' (setNodeValue h k v c) = findNode h' k' c"
  by (induction c) auto

lemma set_setNodeValue_subset:
  "n \<in> set (setNodeValue h k v c) \<Longrightarrow> \<exists>n' \<in> set c. hash n = hash n' \<and> key n = key n'"
  by (induction c) (auto split: if_splits)

lemma findNode_unlinkNode_same:
  "distinct (map key c) \<Longrightarrow> findNode h k (unlinkNode h k c) = None"
  by (induction c) (auto simp: findNode_None_iff image_iff)

lemma findNode_unlinkNode_other:
  "k' \<noteq> k \<Longrightarrow> findNode h' k' (unlinkNode h k c) = findNode h' k' c"
  by (induction c) auto

lemma set_unlinkNode_subset: "set (unlinkNode h k c) \<subseteq> set c"
  by (induction c) auto

lemma distinct_unlinkNode: "distinct (map key c) \<Longrightarrow> distinct (map key (unlinkNode h k c))"
  using set_unlinkNode_subset [of h k] by (induction c) auto

lemma length_unlinkNode:
  "findNode h k c = Some n \<Longrightarrow> Suc (length (unlinkNode h k c)) = length c"
  by (induction c) (auto split: if_splits)

lemma mset_concat_update:
  "i < length t \<Longrightarrow> mset (concat (t[i := c])) + mset (t ! i) = mset (concat t) + mset c"
proof (induction t arbitrary: i)
  case Nil
  then show ?case by simp
next
  case (Cons a t)
  then show ?case by (cases i) (auto simp: ac_simps)
qed

lemma length_concat_update:
  "i < length t \<Longrightarrow> length (concat (t[i := c])) + length (t ! i) = length (concat t) + length c"
  using mset_concat_update [of i t c, THEN arg_cong, of size] by simp

subsection \<open>The loops of \<open>resizeIfNeeded\<close>\<close>

lemma indexFor_pow2_inBounds: "j \<le> 30 \<Longrightarrow> inBounds (indexFor h (2 ^ j)) (2 ^ j)"
  using indexFor_inBounds [of j "replicate (2 ^ j) ()" h] by (simp add: arrayLength_def)

lemma Node_rebuild [simp]: "\<lparr>hash = hash n, key = key n, val = val n\<rparr> = (n :: ('k, 'v) Node)"
  by simp

lemma transferChain_ok:
  assumes "\<forall>n \<in> set c. inBounds (indexFor (hash n) nc) (length nt)"
  shows "\<exists>nt'. transferChain c nc nt = Inr nt' \<and> length nt' = length nt \<and>
           (\<forall>j < length nt. nt' ! j =
              rev (filter (\<lambda>n. nat (sint (indexFor (hash n) nc)) = j) c) @ nt ! j)"
  using assms
proof (induction c arbitrary: nt)
  case Nil
  then show ?case by simp
next
  case (Cons node c)
  let ?i = "nat (sint (indexFor (hash node) nc))"
  let ?nt = "nt[?i := node # nt ! ?i]"
  have inb: "inBounds (indexFor (hash node) nc) (length nt)"
    using Cons.prems by simp
  then have i: "?i < length nt" by (simp add: inBounds_def)
  have "\<forall>n \<in> set c. inBounds (indexFor (hash n) nc) (length ?nt)"
    using Cons.prems by simp
  from Cons.IH [OF this] obtain nt' where
    nt': "transferChain c nc ?nt = Inr nt'" "length nt' = length nt"
      "\<forall>j < length nt. nt' ! j =
          rev (filter (\<lambda>n. nat (sint (indexFor (hash n) nc)) = j) c) @ ?nt ! j"
    by auto
  have "transferChain (node # c) nc nt = Inr nt'"
    using inb nt'(1) by (simp add: Let_def)
  moreover have "\<forall>j < length nt. nt' ! j =
      rev (filter (\<lambda>n. nat (sint (indexFor (hash n) nc)) = j) (node # c)) @ nt ! j"
    using nt'(3) i by (auto simp: nth_list_update)
  ultimately show ?case using nt'(2) by blast
qed

lemma transferAll_ok:
  assumes "\<forall>n \<in> set (concat t). inBounds (indexFor (hash n) nc) (length nt)"
  shows "\<exists>nt'. transferAll t nc nt = Inr nt' \<and> length nt' = length nt \<and>
           (\<forall>j < length nt. nt' ! j =
              rev (filter (\<lambda>n. nat (sint (indexFor (hash n) nc)) = j) (concat t)) @ nt ! j)"
  using assms
proof (induction t arbitrary: nt)
  case Nil
  then show ?case by simp
next
  case (Cons b t)
  have "\<forall>n \<in> set b. inBounds (indexFor (hash n) nc) (length nt)"
    using Cons.prems by simp
  from transferChain_ok [OF this] obtain nt1 where
    nt1: "transferChain b nc nt = Inr nt1" "length nt1 = length nt"
      "\<forall>j < length nt. nt1 ! j =
          rev (filter (\<lambda>n. nat (sint (indexFor (hash n) nc)) = j) b) @ nt ! j"
    by auto
  have "\<forall>n \<in> set (concat t). inBounds (indexFor (hash n) nc) (length nt1)"
    using Cons.prems nt1(2) by simp
  from Cons.IH [OF this] obtain nt' where
    nt': "transferAll t nc nt1 = Inr nt'" "length nt' = length nt1"
      "\<forall>j < length nt1. nt' ! j =
          rev (filter (\<lambda>n. nat (sint (indexFor (hash n) nc)) = j) (concat t)) @ nt1 ! j"
    by auto
  have "transferAll (b # t) nc nt = Inr nt'"
    using nt1(1) nt'(1) by simp
  moreover have "\<forall>j < length nt. nt' ! j =
      rev (filter (\<lambda>n. nat (sint (indexFor (hash n) nc)) = j) (concat (b # t))) @ nt ! j"
    using nt'(3) nt1(2,3) by simp
  ultimately show ?case using nt'(2) nt1(2) by auto
qed

lemma doubled_capacity:
  assumes "j \<le> 29" "length t = 2 ^ j"
  shows "push_bit 1 (arrayLength t) = (2 ^ Suc j :: 32 word)"
    and "sint (push_bit 1 (arrayLength t) :: 32 word) = 2 * int (length t)"
    and "nat (sint (push_bit 1 (arrayLength t) :: 32 word)) = 2 * length t"
proof -
  show eq: "push_bit 1 (arrayLength t) = (2 ^ Suc j :: 32 word)"
    using assms by (simp add: arrayLength_def push_bit_eq_mult)
  have "sint (2 ^ Suc j :: 32 word) = 2 ^ Suc j"
    using assms(1) by (intro sint_pow2) simp
  then show s: "sint (push_bit 1 (arrayLength t) :: 32 word) = 2 * int (length t)"
    unfolding eq using assms(2) by simp
  show "nat (sint (push_bit 1 (arrayLength t) :: 32 word)) = 2 * length t"
    unfolding s by simp
qed

lemma transferAll_rehash:
  assumes "j \<le> 29" "length t = 2 ^ j"
  shows "transferAll t (push_bit 1 (arrayLength t)) (replicate (2 * length t) []) = Inr (rehash t)"
proof -
  let ?nc = "push_bit 1 (arrayLength t) :: 32 word"
  let ?nt = "replicate (2 * length t) [] :: ('a, 'b) chain list"
  have "inBounds (indexFor h (2 ^ Suc j)) (2 ^ Suc j)" for h
    using assms(1) by (intro indexFor_pow2_inBounds) simp
  then have "inBounds (indexFor h ?nc) (length ?nt)" for h
    unfolding doubled_capacity(1) [OF assms] using assms(2) by simp
  then have "\<forall>n \<in> set (concat t). inBounds (indexFor (hash n) ?nc) (length ?nt)"
    by blast
  from transferAll_ok [OF this] obtain nt' where
    nt': "transferAll t ?nc ?nt = Inr nt'" "length nt' = length ?nt"
      "\<forall>j < length ?nt. nt' ! j =
          rev (filter (\<lambda>n. nat (sint (indexFor (hash n) ?nc)) = j) (concat t)) @ ?nt ! j"
    by blast
  have "nt' = rehash t"
  proof (rule nth_equalityI)
    show "length nt' = length (rehash t)"
      using nt'(2) by (simp add: rehash_def)
  next
    fix i assume "i < length nt'"
    then show "nt' ! i = rehash t ! i"
      using nt'(2,3) by (simp add: rehash_def)
  qed
  then show ?thesis using nt'(1) by simp
qed

lemma resizeIfNeeded_fields [simp]:
  "numStripes (fst (resizeIfNeeded s)) = numStripes s"
  "loadFactor (fst (resizeIfNeeded s)) = loadFactor s"
  "size_field (fst (resizeIfNeeded s)) = size_field s"
  by (simp_all add: resizeIfNeeded_def Let_def split: sum.splits)

lemma resizeIfNeeded_noop:
  "\<not> needsResize s (arrayLength (table s)) (size_field s) \<Longrightarrow>
     table (fst (resizeIfNeeded s)) = table s \<and> snd (resizeIfNeeded s) = Inr ()"
  by (simp add: resizeIfNeeded_def Let_def needsResize_def)

lemma resizeIfNeeded_grow:
  assumes "j \<le> 29" "length (table s) = 2 ^ j"
    and "needsResize s (arrayLength (table s)) (size_field s)"
  shows "table (fst (resizeIfNeeded s)) = rehash (table s) \<and> snd (resizeIfNeeded s) = Inr ()"
proof -
  have nr: "needsResize (lock TableLock WriteLock (unlock TableLock ReadLock s))
              (arrayLength (table s)) (size_field s)"
    using assms(3) by (simp add: needsResize_def)
  have pos: "\<not> sint (push_bit 1 (arrayLength (table s)) :: 32 word) < 0"
    unfolding doubled_capacity(2) [OF assms(1,2)] by simp
  show ?thesis
    using nr pos transferAll_rehash [OF assms(1,2)] doubled_capacity(3) [OF assms(1,2)]
    by (simp add: resizeIfNeeded_def Let_def)
qed

lemma resizeIfNeeded_max:
  assumes "length (table s) = 2 ^ 30"
    and "needsResize s (arrayLength (table s)) (size_field s)"
  shows "table (fst (resizeIfNeeded s)) = table s \<and>
         snd (resizeIfNeeded s) = Inl NegativeArraySizeException"
proof -
  have nr: "needsResize (lock TableLock WriteLock (unlock TableLock ReadLock s))
              (arrayLength (table s)) (size_field s)"
    using assms(2) by (simp add: needsResize_def)
  have neg: "sint (push_bit 1 (arrayLength (table s)) :: 32 word) < 0"
    using assms(1) by (simp add: arrayLength_def push_bit_eq_mult)
  show ?thesis
    using nr neg by (simp add: resizeIfNeeded_def Let_def)
qed

subsection \<open>The state invariant\<close>

lemma map_inv_fields:
  "table s' = table s \<Longrightarrow> numStripes s' = numStripes s \<Longrightarrow> size_field s' = size_field s
     \<Longrightarrow> map_inv hc s' = map_inv hc s"
  by (simp add: map_inv_def entries_def)

lemma map_inv_capacity: "map_inv hc s \<Longrightarrow> \<exists>j. 1 \<le> j \<and> j \<le> 30 \<and> length (table s) = 2 ^ j"
  by (auto simp: map_inv_def)

lemma map_inv_stripes: "map_inv hc s \<Longrightarrow> \<exists>j. j \<le> 30 \<and> numStripes s = 2 ^ j"
  by (auto simp: map_inv_def)

lemma map_inv_node:
  "map_inv hc s \<Longrightarrow> i < length (table s) \<Longrightarrow> n \<in> set (table s ! i)
     \<Longrightarrow> hash n = spread (hc (key n)) \<and> bucketOf hc (table s) (key n) = i"
  by (auto simp: map_inv_def)

lemma map_inv_distinct:
  "map_inv hc s \<Longrightarrow> i < length (table s) \<Longrightarrow> distinct (map key (table s ! i))"
  by (auto simp: map_inv_def)

lemma map_inv_size: "map_inv hc s \<Longrightarrow> size_field s = word_of_nat (length (entries s))"
  by (auto simp: map_inv_def)

lemma bucketOf_lt: "j \<le> 30 \<Longrightarrow> length t = 2 ^ j \<Longrightarrow> bucketOf hc t k < length t"
  using indexFor_inBounds [of j t "spread (hc k)"] by (simp add: bucketOf_def inBounds_def)

lemma map_inv_bucketOf_lt: "map_inv hc s \<Longrightarrow> bucketOf hc (table s) k < length (table s)"
  using map_inv_capacity [of hc s] bucketOf_lt [of _ "table s"] by blast

lemma bucketOf_cong: "length t' = length t \<Longrightarrow> bucketOf hc t' k = bucketOf hc t k"
  by (simp add: bucketOf_def arrayLength_def)

lemma concat_mem: "n \<in> set (concat t) \<longleftrightarrow> (\<exists>i < length t. n \<in> set (t ! i))"
proof
  assume "n \<in> set (concat t)"
  then obtain b where b: "b \<in> set t" "n \<in> set b" by auto
  then obtain i where "i < length t" "t ! i = b" by (auto simp: in_set_conv_nth)
  then show "\<exists>i < length t. n \<in> set (t ! i)" using b(2) by blast
next
  assume "\<exists>i < length t. n \<in> set (t ! i)"
  then obtain i where "i < length t" "n \<in> set (t ! i)" by blast
  then show "n \<in> set (concat t)" using nth_mem [of i t] by auto
qed

lemma entries_mem: "n \<in> set (entries s) \<longleftrightarrow> (\<exists>i < length (table s). n \<in> set (table s ! i))"
  unfolding entries_def by (rule concat_mem)

lemma map_inv_entry:
  "map_inv hc s \<Longrightarrow> n \<in> set (entries s)
     \<Longrightarrow> hash n = spread (hc (key n)) \<and> n \<in> set (table s ! bucketOf hc (table s) (key n))"
  using map_inv_node [of hc s] by (auto simp: entries_mem)

lemma map_inv_key_unique:
  assumes "map_inv hc s" "n \<in> set (entries s)" "m \<in> set (entries s)" "key n = key m"
  shows "n = m"
proof -
  let ?b = "table s ! bucketOf hc (table s) (key n)"
  have "n \<in> set ?b"
    using map_inv_entry [OF assms(1) assms(2)] by simp
  moreover have "m \<in> set ?b"
    using map_inv_entry [OF assms(1) assms(3)] assms(4) by simp
  moreover have "distinct (map key ?b)"
    using map_inv_distinct [OF assms(1)] map_inv_bucketOf_lt [OF assms(1)] by blast
  ultimately show ?thesis
    using assms(4) by (auto simp: distinct_map dest: inj_onD)
qed

lemma distinct_concat_nth:
  "(\<forall>i < length t. distinct (t ! i)) \<Longrightarrow>
   (\<forall>i < length t. \<forall>j < length t. i \<noteq> j \<longrightarrow> set (t ! i) \<inter> set (t ! j) = {}) \<Longrightarrow>
   distinct (concat t)"
proof (induction t)
  case Nil
  then show ?case by simp
next
  case (Cons a t)
  have d: "distinct a" using Cons.prems(1) by auto
  have "\<forall>i < length t. distinct (t ! i)" using Cons.prems(1) by auto
  moreover have "\<forall>i < length t. \<forall>j < length t. i \<noteq> j \<longrightarrow> set (t ! i) \<inter> set (t ! j) = {}"
  proof (intro allI impI)
    fix i j assume "i < length t" "j < length t" "i \<noteq> j"
    then show "set (t ! i) \<inter> set (t ! j) = {}"
      using Cons.prems(2) [rule_format, of "Suc i" "Suc j"] by simp
  qed
  ultimately have dt: "distinct (concat t)" by (rule Cons.IH)
  have disj: "set a \<inter> set (t ! j) = {}" if "j < length t" for j
    using Cons.prems(2) [rule_format, of 0 "Suc j"] that by simp
  have "x \<notin> set (concat t)" if "x \<in> set a" for x
  proof
    assume "x \<in> set (concat t)"
    then obtain j where "j < length t" "x \<in> set (t ! j)"
      unfolding concat_mem by blast
    then show False using disj [of j] that by blast
  qed
  then have "set a \<inter> set (concat t) = {}"
    by blast
  then show ?case using d dt by simp
qed

lemma map_inv_distinct_entries:
  assumes "map_inv hc s"
  shows "distinct (map key (entries s))"
proof -
  have "distinct (table s ! i)" if "i < length (table s)" for i
    using map_inv_distinct [OF assms that] by (simp add: distinct_map)
  moreover have "set (table s ! i) \<inter> set (table s ! j) = {}"
    if "i < length (table s)" "j < length (table s)" "i \<noteq> j" for i j
    using map_inv_node [OF assms that(1)] map_inv_node [OF assms that(2)] that(3) by blast
  ultimately have "distinct (concat (table s))"
    by (intro distinct_concat_nth) blast+
  moreover have "inj_on key (set (entries s))"
    using map_inv_key_unique [OF assms] by (auto simp: inj_on_def)
  ultimately show ?thesis by (simp add: distinct_map entries_def)
qed

lemma mset_concat_classes:
  "mset (concat (map (\<lambda>j. rev (filter (\<lambda>x. f x = j) xs)) [0..<m]))
     = mset (filter (\<lambda>x. f x < m) xs)"
proof (induction m)
  case 0
  then show ?case by simp
next
  case (Suc m)
  have "mset (filter (\<lambda>x. f x < m) xs) + mset (filter (\<lambda>x. f x = m) xs)
          = mset (filter (\<lambda>x. f x < Suc m) xs)"
    by (induction xs) (auto simp: less_Suc_eq)
  then show ?case using Suc by simp
qed

lemma arrayLength_rehash: "arrayLength (rehash t) = push_bit 1 (arrayLength t)"
  by (simp add: rehash_def arrayLength_def push_bit_eq_mult)

lemma length_rehash [simp]: "length (rehash t) = 2 * length t"
  by (simp add: rehash_def)

lemma nth_rehash:
  "i < 2 * length t \<Longrightarrow> rehash t ! i =
     rev (filter (\<lambda>n. nat (sint (indexFor (hash n) (push_bit 1 (arrayLength t)))) = i) (concat t))"
  by (simp add: rehash_def del: push_bit_of_1)

lemma mset_rehash:
  assumes "j \<le> 29" "length t = 2 ^ j"
  shows "mset (concat (rehash t)) = mset (concat t)"
proof -
  have "inBounds (indexFor h (2 ^ Suc j)) (2 ^ Suc j)" for h
    using assms(1) by (intro indexFor_pow2_inBounds) simp
  then have "nat (sint (indexFor h (push_bit 1 (arrayLength t)))) < 2 * length t" for h
    unfolding doubled_capacity(1) [OF assms] using assms(2) by (simp add: inBounds_def)
  then have "filter (\<lambda>n. nat (sint (indexFor (hash n) (push_bit 1 (arrayLength t)))) < 2 * length t)
               (concat t) = concat t"
    by simp
  then show ?thesis
    unfolding rehash_def mset_concat_classes by simp
qed

subsection \<open>Growth and insertion keep the invariant\<close>

lemma capacity_below_max:
  assumes "length t = 2 ^ j" "length t < 2 ^ 30"
  shows "j \<le> 29"
proof -
  have "(2::nat) ^ j < 2 ^ 30" using assms by simp
  then have "j < 30" by (simp only: power_strict_increasing_iff)
  then show ?thesis by simp
qed

lemma rehash_inv:
  assumes "map_inv hc s" "length (table s) < 2 ^ 30"
  shows "map_inv hc (s\<lparr>table := rehash (table s)\<rparr>)"
proof -
  let ?t = "table s"
  obtain j where j: "1 \<le> j" "length ?t = 2 ^ j"
    using map_inv_capacity [OF assms(1)] by blast
  have j29: "j \<le> 29" using capacity_below_max [OF j(2) assms(2)] .
  have cap: "\<exists>j' \<in> {1..30}. length (rehash ?t) = 2 ^ j'"
    using j j29 by (intro bexI [of _ "Suc j"]) simp_all
  have stripes: "\<exists>j \<in> {0..30}. numStripes s = 2 ^ j"
    using assms(1) by (simp add: map_inv_def)
  have nodes: "hash n = spread (hc (key n)) \<and> bucketOf hc (rehash ?t) (key n) = i"
    if "i < length (rehash ?t)" "n \<in> set (rehash ?t ! i)" for i n
  proof -
    have n: "n \<in> set (entries s)"
      "nat (sint (indexFor (hash n) (push_bit 1 (arrayLength ?t)))) = i"
      using that by (simp_all add: nth_rehash entries_def del: push_bit_of_1)
    have h: "hash n = spread (hc (key n))"
      using map_inv_entry [OF assms(1) n(1)] by simp
    show ?thesis
      using n(2) h by (simp add: bucketOf_def arrayLength_rehash del: push_bit_of_1)
  qed
  have dist: "distinct (map key (rehash ?t ! i))" if "i < length (rehash ?t)" for i
    using that map_inv_distinct_entries [OF assms(1)]
    by (simp add: nth_rehash entries_def rev_map [symmetric] distinct_map_filter
          del: push_bit_of_1)
  have "length (concat (rehash ?t)) = length (concat ?t)"
    using mset_rehash [OF j29 j(2), THEN arg_cong, of size] by simp
  then have sz: "size_field s = word_of_nat (length (concat (rehash ?t)))"
    using map_inv_size [OF assms(1)] by (simp add: entries_def)
  show ?thesis
    unfolding map_inv_def using cap stripes nodes dist sz by (simp add: entries_def)
qed

lemma rehash_lookup:
  assumes "map_inv hc s" "length (table s) < 2 ^ 30"
  shows "lookup hc (s\<lparr>table := rehash (table s)\<rparr>) k = lookup hc s k"
proof -
  let ?t = "table s" and ?h = "spread (hc k)"
  let ?s' = "s\<lparr>table := rehash (table s)\<rparr>"
  let ?i' = "bucketOf hc (rehash ?t) k"
  have inv': "map_inv hc ?s'" using rehash_inv [OF assms] .
  have i': "?i' < length (rehash ?t)"
    using map_inv_bucketOf_lt [OF inv', of k] by simp
  have new: "lookup hc ?s' k = findNode ?h k (rehash ?t ! ?i')"
    by (simp add: lookup_def)
  have mem: "n \<in> set (rehash ?t ! ?i') \<longleftrightarrow>
      n \<in> set (entries s) \<and> nat (sint (indexFor (hash n) (push_bit 1 (arrayLength ?t)))) = ?i'" for n
    using i' by (auto simp add: nth_rehash entries_def simp del: push_bit_of_1)
  show ?thesis
  proof (cases "lookup hc s k")
    case None
    have "\<not> (hash n = ?h \<and> key n = k)" if "n \<in> set (rehash ?t ! ?i')" for n
    proof
      assume hk: "hash n = ?h \<and> key n = k"
      have "n \<in> set (entries s)" using that mem by simp
      then have "n \<in> set (?t ! bucketOf hc ?t k)"
        using map_inv_entry [OF assms(1)] hk by blast
      then show False
        using None hk by (auto simp: lookup_def findNode_None_iff)
    qed
    then have "findNode ?h k (rehash ?t ! ?i') = None"
      by (simp add: findNode_None_iff)
    then show ?thesis using None new by simp
  next
    case (Some n)
    then have n: "n \<in> set (?t ! bucketOf hc ?t k)" "hash n = ?h" "key n = k"
      using findNode_SomeD [of ?h k "?t ! bucketOf hc ?t k" n] by (simp_all add: lookup_def)
    have "n \<in> set (entries s)"
      using n(1) map_inv_bucketOf_lt [OF assms(1), of k] by (auto simp: entries_mem)
    moreover have "nat (sint (indexFor (hash n) (push_bit 1 (arrayLength ?t)))) = ?i'"
      using n(2) by (simp add: bucketOf_def arrayLength_rehash del: push_bit_of_1)
    ultimately have "n \<in> set (rehash ?t ! ?i')" using mem by simp
    moreover have "distinct (map key (rehash ?t ! ?i'))"
      using map_inv_distinct [OF inv', of ?i'] i' by simp
    ultimately have "findNode ?h k (rehash ?t ! ?i') = Some n"
      using n(2,3) by (intro findNode_unique) simp_all
    then show ?thesis using Some new by simp
  qed
qed

lemma grow_fields [simp]:
  "numStripes (grow s) = numStripes s" "loadFactor (grow s) = loadFactor s"
  "size_field (grow s) = size_field s"
  by (simp_all add: grow_def)

lemma grow_inv: "map_inv hc s \<Longrightarrow> map_inv hc (grow s)"
  using rehash_inv [of hc s] by (simp add: grow_def)

lemma grow_lookup: "map_inv hc s \<Longrightarrow> lookup hc (grow s) k = lookup hc s k"
  using rehash_lookup [of hc s k] by (simp add: grow_def)

lemma grow_entries: "map_inv hc s \<Longrightarrow> mset (entries (grow s)) = mset (entries s)"
proof -
  assume inv: "map_inv hc s"
  obtain j where j: "length (table s) = 2 ^ j"
    using map_inv_capacity [OF inv] by blast
  show ?thesis
    using mset_rehash [of j "table s"] capacity_below_max [OF j] j
    by (simp add: grow_def entries_def)
qed

lemma table_grow_cong:
  "table s' = table s \<Longrightarrow> loadFactor s' = loadFactor s \<Longrightarrow> size_field s' = size_field s
     \<Longrightarrow> table (grow s') = table (grow s)"
  by (simp add: grow_def needsResize_def)

lemma insertNode_fields [simp]:
  "numStripes (insertNode hc s k v) = numStripes s"
  "loadFactor (insertNode hc s k v) = loadFactor s"
  "size_field (insertNode hc s k v) = size_field s + 1"
  "length (table (insertNode hc s k v)) = length (table s)"
  by (simp_all add: insertNode_def)

lemma insertNode_entries:
  assumes "map_inv hc s"
  shows "mset (entries (insertNode hc s k v))
           = add_mset \<lparr>hash = spread (hc k), key = k, val = v\<rparr> (mset (entries s))"
  using mset_concat_update [OF map_inv_bucketOf_lt [OF assms, of k],
      of "\<lparr>hash = spread (hc k), key = k, val = v\<rparr> # table s ! bucketOf hc (table s) k"]
  by (simp add: insertNode_def entries_def)

lemma insertNode_lookup:
  assumes "map_inv hc s"
  shows "lookup hc (insertNode hc s k v) k' =
           (if k' = k then Some \<lparr>hash = spread (hc k), key = k, val = v\<rparr> else lookup hc s k')"
proof -
  have b: "bucketOf hc (table (insertNode hc s k v)) k' = bucketOf hc (table s) k'"
    by (intro bucketOf_cong) simp
  have lt: "bucketOf hc (table s) k < length (table s)"
    using map_inv_bucketOf_lt [OF assms] .
  show ?thesis
    unfolding lookup_def b using lt
    by (cases "bucketOf hc (table s) k' = bucketOf hc (table s) k")
       (auto simp: insertNode_def)
qed

lemma insertNode_inv:
  assumes "map_inv hc s" "lookup hc s k = None"
  shows "map_inv hc (insertNode hc s k v)"
proof -
  let ?t = "table s" and ?i = "bucketOf hc (table s) k"
  let ?new = "\<lparr>hash = spread (hc k), key = k, val = v\<rparr>"
  let ?t' = "?t[?i := ?new # ?t ! ?i]"
  have t': "table (insertNode hc s k v) = ?t'" by (simp add: insertNode_def)
  have lt: "?i < length ?t" using map_inv_bucketOf_lt [OF assms(1)] .
  have b: "bucketOf hc ?t' k' = bucketOf hc ?t k'" for k'
    by (intro bucketOf_cong) simp
  have cap: "\<exists>j \<in> {1..30}. length ?t' = 2 ^ j"
    using assms(1) by (simp add: map_inv_def)
  have stripes: "\<exists>j \<in> {0..30}. numStripes s = 2 ^ j"
    using assms(1) by (simp add: map_inv_def)
  have nodes: "hash n = spread (hc (key n)) \<and> bucketOf hc ?t' (key n) = i"
    if "i < length ?t'" "n \<in> set (?t' ! i)" for i n
  proof (cases "n = ?new \<and> i = ?i")
    case True
    then show ?thesis by (simp add: b)
  next
    case False
    then have "n \<in> set (?t ! i)"
      using that by (cases "i = ?i") (auto simp: nth_list_update)
    then show ?thesis
      using map_inv_node [OF assms(1), of i n] that(1) by (simp add: b)
  qed
  have absent: "k \<notin> key ` set (?t ! ?i)"
  proof
    assume "k \<in> key ` set (?t ! ?i)"
    then obtain n where n: "n \<in> set (?t ! ?i)" "key n = k" by auto
    then have "hash n = spread (hc k)"
      using map_inv_node [OF assms(1) lt, of n] by simp
    then show False
      using assms(2) n by (simp add: lookup_def findNode_None_iff)
  qed
  have dist: "distinct (map key (?t' ! i))" if "i < length ?t'" for i
    using that absent map_inv_distinct [OF assms(1), of i]
    by (cases "i = ?i") (auto simp: nth_list_update)
  have "length (concat ?t') = Suc (length (concat ?t))"
    using length_concat_update [OF lt, of "?new # ?t ! ?i"] by simp
  then have sz: "size_field s + 1 = word_of_nat (length (concat ?t'))"
    using map_inv_size [OF assms(1)] by (simp add: entries_def)
  show ?thesis
    unfolding map_inv_def t' entries_def using cap stripes nodes dist sz by simp
qed

subsection \<open>What \<open>get\<close> and \<open>put\<close> compute\<close>

lemma needsResize_simps [simp]:
  "needsResize (lock l m s) c n = needsResize s c n"
  "needsResize (unlock l m s) c n = needsResize s c n"
  "needsResize (s\<lparr>table := t\<rparr>) c n = needsResize s c n"
  "needsResize (s\<lparr>size_field := z\<rparr>) c n = needsResize s c n"
  "needsResize (insertNode hc s k v) c n = needsResize s c n"
  by (simp_all add: needsResize_def)

lemma arrayLength_cong: "length t' = length t \<Longrightarrow> arrayLength t' = arrayLength t"
  by (simp add: arrayLength_def)

lemma resizeIfNeeded_grow_eq:
  assumes "j \<le> 30" "length (table s) = 2 ^ j"
  shows "table (fst (resizeIfNeeded s)) = table (grow s)"
    and "snd (resizeIfNeeded s) =
           (if needsResize s (arrayLength (table s)) (size_field s) \<and> length (table s) = 2 ^ 30
            then Inl NegativeArraySizeException else Inr ())"
proof -
  consider (noop) "\<not> needsResize s (arrayLength (table s)) (size_field s)"
    | (grow) "needsResize s (arrayLength (table s)) (size_field s)" "j \<le> 29"
    | (max) "needsResize s (arrayLength (table s)) (size_field s)" "j = 30"
    using assms(1) by linarith
  then have "table (fst (resizeIfNeeded s)) = table (grow s) \<and>
     snd (resizeIfNeeded s) =
           (if needsResize s (arrayLength (table s)) (size_field s) \<and> length (table s) = 2 ^ 30
            then Inl NegativeArraySizeException else Inr ())"
  proof cases
    case noop
    then show ?thesis using resizeIfNeeded_noop [of s] by (simp add: grow_def)
  next
    case grow
    have "(2::nat) ^ j < 2 ^ 30"
      using grow(2) by (intro power_strict_increasing) simp_all
    then show ?thesis
      using resizeIfNeeded_grow [OF grow(2) assms(2) grow(1)] grow(1) assms(2)
      by (simp add: grow_def)
  next
    case max
    then show ?thesis
      using resizeIfNeeded_max [of s] assms(2) by (simp add: grow_def)
  qed
  then show "table (fst (resizeIfNeeded s)) = table (grow s)"
    and "snd (resizeIfNeeded s) =
           (if needsResize s (arrayLength (table s)) (size_field s) \<and> length (table s) = 2 ^ 30
            then Inl NegativeArraySizeException else Inr ())"
    by simp_all
qed

lemma map_inv_inBounds:
  assumes "map_inv hc s"
  shows "inBounds (indexFor h (arrayLength (table s))) (length (table s))"
    and "inBounds (stripeFor s h) (nat (sint (numStripes s)))"
proof -
  obtain j where "j \<le> 30" "length (table s) = 2 ^ j"
    using map_inv_capacity [OF assms] by blast
  then show "inBounds (indexFor h (arrayLength (table s))) (length (table s))"
    by (rule indexFor_inBounds)
  obtain j' where "j' \<le> 30" "numStripes s = 2 ^ j'"
    using map_inv_stripes [OF assms] by blast
  then show "inBounds (stripeFor s h) (nat (sint (numStripes s)))"
    by (rule stripeFor_inBounds)
qed

lemma stripeFor_simps [simp]:
  "stripeFor (lock l m s) h = stripeFor s h"
  "stripeFor (unlock l m s) h = stripeFor s h"
  by (simp_all add: stripeFor_def)

lemma get_result:
  assumes "map_inv hc s"
  shows "snd (get hc s (Some k)) = Inr (case lookup hc s k of None \<Rightarrow> None | Some n \<Rightarrow> val n)"
  using map_inv_inBounds [OF assms, of "spread (hc k)"]
  by (simp add: get_def Let_def lookup_def bucketOf_def split: option.splits)

lemma get_fields:
  "table (fst (get hc s key_arg)) = table s"
  "numStripes (fst (get hc s key_arg)) = numStripes s"
  "loadFactor (fst (get hc s key_arg)) = loadFactor s"
  "size_field (fst (get hc s key_arg)) = size_field s"
  by (simp_all add: get_def Let_def split: option.splits)

lemma put_present:
  assumes "map_inv hc s" "lookup hc s k = Some n"
  shows "table (fst (put hc s (Some k) v)) =
           (table s)[bucketOf hc (table s) k :=
              setNodeValue (spread (hc k)) k v (table s ! bucketOf hc (table s) k)]"
    and "size_field (fst (put hc s (Some k) v)) = size_field s"
    and "numStripes (fst (put hc s (Some k) v)) = numStripes s"
    and "loadFactor (fst (put hc s (Some k) v)) = loadFactor s"
    and "snd (put hc s (Some k) v) = Inr (val n)"
  using map_inv_inBounds [OF assms(1), of "spread (hc k)"] assms(2)
  by (simp_all add: put_def Let_def lookup_def bucketOf_def)


lemma insert_tail:
  fixes X :: "('k, 'v) StripedHashMap" and bl :: lock_id and r :: "'r"
  assumes "\<exists>j \<le> 30. length (table X) = 2 ^ j"
  defines "res \<equiv> (case resizeIfNeeded X of
              (s4, Inl e) \<Rightarrow> (unlock TableLock ReadLock s4, Inl IllegalMonitorStateException)
            | (s4, Inr _) \<Rightarrow>
                (unlock TableLock ReadLock (unlock bl WriteLock (lock bl WriteLock s4)), Inr r))"
  shows "table (fst res) = table (grow X)"
    and "size_field (fst res) = size_field X"
    and "numStripes (fst res) = numStripes X"
    and "loadFactor (fst res) = loadFactor X"
    and "snd res =
           (if needsResize X (arrayLength (table X)) (size_field X) \<and> length (table X) = 2 ^ 30
            then Inl IllegalMonitorStateException else Inr r)"
proof -
  obtain j where j: "j \<le> 30" "length (table X) = 2 ^ j" using assms(1) by blast
  obtain s4 out where eq: "resizeIfNeeded X = (s4, out)" by (cases "resizeIfNeeded X")
  have s4: "table s4 = table (grow X)" "size_field s4 = size_field X"
    "numStripes s4 = numStripes X" "loadFactor s4 = loadFactor X"
    "out = (if needsResize X (arrayLength (table X)) (size_field X) \<and> length (table X) = 2 ^ 30
            then Inl NegativeArraySizeException else Inr ())"
    using resizeIfNeeded_grow_eq [OF j] resizeIfNeeded_fields [of X] by (simp_all add: eq)
  show "table (fst res) = table (grow X)"
    and "size_field (fst res) = size_field X"
    and "numStripes (fst res) = numStripes X"
    and "loadFactor (fst res) = loadFactor X"
    and "snd res =
           (if needsResize X (arrayLength (table X)) (size_field X) \<and> length (table X) = 2 ^ 30
            then Inl IllegalMonitorStateException else Inr r)"
    using s4 by (simp_all add: res_def eq)
qed

lemma put_absent:
  assumes "map_inv hc s" "lookup hc s k = None"
  shows "table (fst (put hc s (Some k) v)) = table (grow (insertNode hc s k v))"
    and "size_field (fst (put hc s (Some k) v)) = size_field s + 1"
    and "numStripes (fst (put hc s (Some k) v)) = numStripes s"
    and "loadFactor (fst (put hc s (Some k) v)) = loadFactor s"
    and "snd (put hc s (Some k) v) =
           (if needsResize s (arrayLength (table s)) (size_field s + 1) \<and> length (table s) = 2 ^ 30
            then Inl IllegalMonitorStateException else Inr None)"
proof -
  define bl where "bl = StripeLock (nat (sint (stripeFor s (spread (hc k)))))"
  define X where "X = unlock bl WriteLock
    ((lock bl WriteLock (lock TableLock ReadLock s))
       \<lparr>table := table (insertNode hc s k v), size_field := size_field s + 1\<rparr>)"
  let ?nr = "needsResize s (arrayLength (table s)) (size_field s + 1)"
  have eq: "put hc s (Some k) v =
     (if ?nr
      then (case resizeIfNeeded X of
              (s4, Inl e) \<Rightarrow> (unlock TableLock ReadLock s4, Inl IllegalMonitorStateException)
            | (s4, Inr _) \<Rightarrow>
                (unlock TableLock ReadLock (unlock bl WriteLock (lock bl WriteLock s4)), Inr None))
      else (unlock TableLock ReadLock X, Inr None))"
    unfolding X_def bl_def
    using map_inv_inBounds [OF assms(1), of "spread (hc k)"] assms(2)
    by (simp add: put_def Let_def lookup_def bucketOf_def insertNode_def)
  have X: "table X = table (insertNode hc s k v)" "loadFactor X = loadFactor s"
    "size_field X = size_field s + 1" "numStripes X = numStripes s"
    by (simp_all add: X_def)
  have capX: "\<exists>j \<le> 30. length (table X) = 2 ^ j"
    using map_inv_capacity [OF assms(1)] by (auto simp: X)
  have g: "table (grow X) = table (grow (insertNode hc s k v))"
    using X by (intro table_grow_cong) simp_all
  have nrX: "needsResize X (arrayLength (table X)) (size_field X) = ?nr"
    by (simp add: X needsResize_def arrayLength_def)
  note tail = insert_tail [OF capX, of bl "None :: 'b option"]
  show "table (fst (put hc s (Some k) v)) = table (grow (insertNode hc s k v))"
  proof (cases ?nr)
    case True
    then show ?thesis by (simp add: eq tail g)
  next
    case False
    then show ?thesis by (simp add: eq X grow_def arrayLength_def)
  qed
  show "size_field (fst (put hc s (Some k) v)) = size_field s + 1"
    by (cases ?nr) (simp_all add: eq tail X)
  show "numStripes (fst (put hc s (Some k) v)) = numStripes s"
    by (cases ?nr) (simp_all add: eq tail X)
  show "loadFactor (fst (put hc s (Some k) v)) = loadFactor s"
    by (cases ?nr) (simp_all add: eq tail X)
  show "snd (put hc s (Some k) v) =
           (if ?nr \<and> length (table s) = 2 ^ 30
            then Inl IllegalMonitorStateException else Inr None)"
  proof (cases ?nr)
    case True
    have "snd (put hc s (Some k) v) =
        (if needsResize X (arrayLength (table X)) (size_field X) \<and> length (table X) = 2 ^ 30
         then Inl IllegalMonitorStateException else Inr None)"
      using True by (simp only: eq tail if_True)
    then show ?thesis unfolding nrX by (simp add: X)
  next
    case False
    then show ?thesis by (simp add: eq)
  qed
qed

subsection \<open>Lookups after \<open>put\<close>\<close>

lemma lookup_table_cong: "table s' = table s \<Longrightarrow> lookup hc s' k = lookup hc s k"
  by (simp add: lookup_def)

lemma entries_table_cong: "table s' = table s \<Longrightarrow> entries s' = entries s"
  by (simp add: entries_def)

lemma setNodeValue_inv:
  assumes "map_inv hc s" "i < length (table s)"
  shows "map_inv hc (s\<lparr>table := (table s)[i := setNodeValue h k v (table s ! i)]\<rparr>)"
proof -
  let ?t = "table s"
  let ?t' = "?t[i := setNodeValue h k v (?t ! i)]"
  have b: "bucketOf hc ?t' k' = bucketOf hc ?t k'" for k'
    by (intro bucketOf_cong) simp
  have cap: "\<exists>j \<in> {1..30}. length ?t' = 2 ^ j"
    using assms(1) by (simp add: map_inv_def)
  have stripes: "\<exists>j \<in> {0..30}. numStripes s = 2 ^ j"
    using assms(1) by (simp add: map_inv_def)
  have nodes: "hash n = spread (hc (key n)) \<and> bucketOf hc ?t' (key n) = i'"
    if "i' < length ?t'" "n \<in> set (?t' ! i')" for i' n
  proof (cases "i' = i")
    case True
    then have "n \<in> set (setNodeValue h k v (?t ! i))"
      using that assms(2) by simp
    then obtain n' where "n' \<in> set (?t ! i)" "hash n = hash n'" "key n = key n'"
      using set_setNodeValue_subset [of n h k v "?t ! i"] by blast
    then show ?thesis
      using map_inv_node [OF assms(1,2), of n'] True by (simp add: b)
  next
    case False
    then show ?thesis
      using that map_inv_node [OF assms(1), of i' n] by (simp add: b)
  qed
  have dist: "distinct (map key (?t' ! i'))" if "i' < length ?t'" for i'
    using that map_inv_distinct [OF assms(1), of i']
    by (cases "i' = i") (auto simp: nth_list_update)
  have "length (concat ?t') = length (concat ?t)"
    using length_concat_update [OF assms(2), of "setNodeValue h k v (?t ! i)"] by simp
  then have sz: "size_field s = word_of_nat (length (concat ?t'))"
    using map_inv_size [OF assms(1)] by (simp add: entries_def)
  show ?thesis
    unfolding map_inv_def entries_def using cap stripes nodes dist sz by simp
qed

lemma setNodeValue_lookup:
  assumes "map_inv hc s" "lookup hc s k = Some n"
  shows "lookup hc (s\<lparr>table := (table s)[bucketOf hc (table s) k :=
             setNodeValue (spread (hc k)) k v (table s ! bucketOf hc (table s) k)]\<rparr>) k' =
          (if k' = k then Some \<lparr>hash = spread (hc k), key = k, val = v\<rparr> else lookup hc s k')"
proof -
  let ?t = "table s" and ?i = "bucketOf hc (table s) k" and ?h = "spread (hc k)"
  let ?t' = "?t[?i := setNodeValue ?h k v (?t ! ?i)]"
  have lt: "?i < length ?t" using map_inv_bucketOf_lt [OF assms(1)] .
  have b: "bucketOf hc ?t' k'' = bucketOf hc ?t k''" for k''
    by (intro bucketOf_cong) simp
  have n: "hash n = ?h" "key n = k"
    using assms(2) findNode_SomeD [of ?h k "?t ! ?i" n] by (simp_all add: lookup_def)
  show ?thesis
  proof (cases "k' = k")
    case True
    have "n\<lparr>val := v\<rparr> = \<lparr>hash = ?h, key = k, val = v\<rparr>"
      using n by simp
    then show ?thesis
      using True lt assms(2) by (simp add: lookup_def b findNode_setNodeValue_same)
  next
    case False
    then show ?thesis
      using lt
      by (cases "bucketOf hc ?t k' = ?i")
         (simp_all add: lookup_def b findNode_setNodeValue_other)
  qed
qed

lemma put_inv:
  assumes "map_inv hc s"
  shows "map_inv hc (fst (put hc s (Some k) v))"
proof (cases "lookup hc s k")
  case None
  have "map_inv hc (grow (insertNode hc s k v))"
    using insertNode_inv [OF assms None] by (rule grow_inv)
  then show ?thesis
    using put_absent [OF assms None, of v]
    by (subst map_inv_fields [of _ "grow (insertNode hc s k v)"]) simp_all
next
  case (Some n)
  let ?s' = "s\<lparr>table := (table s)[bucketOf hc (table s) k :=
             setNodeValue (spread (hc k)) k v (table s ! bucketOf hc (table s) k)]\<rparr>"
  have "map_inv hc ?s'"
    using assms map_inv_bucketOf_lt [OF assms] by (rule setNodeValue_inv)
  then show ?thesis
    using put_present [OF assms Some, of v]
    by (subst map_inv_fields [of _ ?s']) simp_all
qed

lemma put_lookup:
  assumes "map_inv hc s"
  shows "lookup hc (fst (put hc s (Some k) v)) k' =
          (if k' = k then Some \<lparr>hash = spread (hc k), key = k, val = v\<rparr> else lookup hc s k')"
proof (cases "lookup hc s k")
  case None
  have "lookup hc (fst (put hc s (Some k) v)) k' = lookup hc (grow (insertNode hc s k v)) k'"
    using put_absent(1) [OF assms None, of v] by (rule lookup_table_cong)
  also have "\<dots> = lookup hc (insertNode hc s k v) k'"
    using insertNode_inv [OF assms None] by (rule grow_lookup)
  finally show ?thesis by (simp add: insertNode_lookup [OF assms])
next
  case (Some n)
  let ?s' = "s\<lparr>table := (table s)[bucketOf hc (table s) k :=
             setNodeValue (spread (hc k)) k v (table s ! bucketOf hc (table s) k)]\<rparr>"
  have "lookup hc (fst (put hc s (Some k) v)) k' = lookup hc ?s' k'"
    using put_present(1) [OF assms Some, of v] by (intro lookup_table_cong) simp
  then show ?thesis by (simp add: setNodeValue_lookup [OF assms Some])
qed

lemma put_get:
  assumes "map_inv hc s"
  shows "snd (get hc (fst (put hc s (Some k) v)) (Some k)) = Inr v"
  using get_result [OF put_inv [OF assms, of k v], of k] by (simp add: put_lookup [OF assms])

lemma entries_keys:
  assumes "map_inv hc s"
  shows "key ` set (entries s) = {k. lookup hc s k \<noteq> None}"
proof (intro set_eqI iffI)
  fix k assume "k \<in> key ` set (entries s)"
  then obtain n where n: "n \<in> set (entries s)" "key n = k" by auto
  then have "n \<in> set (table s ! bucketOf hc (table s) k)" "hash n = spread (hc k)"
    using map_inv_entry [OF assms n(1)] by simp_all
  then show "k \<in> {k. lookup hc s k \<noteq> None}"
    using n(2) by (auto simp: lookup_def findNode_None_iff)
next
  fix k assume "k \<in> {k. lookup hc s k \<noteq> None}"
  then obtain n where "lookup hc s k = Some n" by auto
  then have n: "n \<in> set (table s ! bucketOf hc (table s) k)" "key n = k"
    using findNode_SomeD [of "spread (hc k)" k _ n] by (simp_all add: lookup_def)
  then have "n \<in> set (entries s)"
    unfolding entries_mem using map_inv_bucketOf_lt [OF assms, of k] by blast
  then show "k \<in> key ` set (entries s)"
    using n(2) by blast
qed

lemma length_entries:
  assumes "map_inv hc s"
  shows "length (entries s) = card {k. lookup hc s k \<noteq> None}"
  using distinct_card [OF map_inv_distinct_entries [OF assms]] entries_keys [OF assms]
  by simp

lemma lookup_entries:
  assumes "map_inv hc s"
  shows "lookup hc s k = Some n \<longleftrightarrow> n \<in> set (entries s) \<and> key n = k"
proof
  assume "lookup hc s k = Some n"
  then have n: "n \<in> set (table s ! bucketOf hc (table s) k)" "key n = k"
    using findNode_SomeD [of "spread (hc k)" k _ n] by (simp_all add: lookup_def)
  then have "n \<in> set (entries s)"
    unfolding entries_mem using map_inv_bucketOf_lt [OF assms, of k] by blast
  then show "n \<in> set (entries s) \<and> key n = k"
    using n(2) by blast
next
  assume n: "n \<in> set (entries s) \<and> key n = k"
  then have "n \<in> set (table s ! bucketOf hc (table s) k)" "hash n = spread (hc k)"
    using map_inv_entry [OF assms, of n] by simp_all
  moreover have "distinct (map key (table s ! bucketOf hc (table s) k))"
    using map_inv_distinct [OF assms] map_inv_bucketOf_lt [OF assms] by blast
  ultimately show "lookup hc s k = Some n"
    using n unfolding lookup_def by (intro findNode_unique) simp_all
qed

subsection \<open>Rounding up to a power of two\<close>

lemma sint_nonneg_uint: "0 \<le> sint (w::32 word) \<Longrightarrow> uint w = sint w"
proof -
  assume a: "0 \<le> sint w"
  have "sint w < 2 ^ 32" using sint_lt [of w] by simp
  then have "take_bit 32 (sint w) = sint w"
    using a by (intro take_bit_int_eq_self) simp_all
  then show ?thesis using uint_sint [of w] by simp
qed

lemma unat_pred:
  assumes "1 \<le> sint (v::32 word)"
  shows "unat (v - 1) = nat (sint v) - 1"
proof -
  have u: "uint v = sint v" using assms by (intro sint_nonneg_uint) simp
  have "v \<noteq> 0" using assms by auto
  then have "unat (v - 1) = unat v - 1" by (rule unat_minus_one)
  also have "unat v = nat (sint v)" unfolding u [symmetric] by (rule unat_eq_nat_uint)
  finally show ?thesis .
qed

lemma highestOneBit_pos:
  assumes "0 < unat (w::32 word)"
  shows "highestOneBit w = 2 ^ (floorlog 2 (unat w) - 1)"
    and "1 \<le> floorlog 2 (unat w)" and "floorlog 2 (unat w) \<le> 32"
    and "2 ^ (floorlog 2 (unat w) - 1) \<le> unat w" and "unat w < 2 ^ floorlog 2 (unat w)"
proof -
  have "w \<noteq> 0" using assms by auto
  then show "highestOneBit w = 2 ^ (floorlog 2 (unat w) - 1)"
    by (simp add: highestOneBit_def push_bit_eq_mult)
  show b1: "2 ^ (floorlog 2 (unat w) - 1) \<le> unat w" and b2: "unat w < 2 ^ floorlog 2 (unat w)"
    using floorlog_bounds [of "unat w" 2] assms by simp_all
  show "1 \<le> floorlog 2 (unat w)"
    using assms by (simp add: floorlog_def)
  have "unat w < 2 ^ 32" using unsigned_less [of w, where 'a = nat] by simp
  then have "floorlog 2 (unat w) \<le> 32"
    by (intro floorlog_leI) simp_all
  then show "floorlog 2 (unat w) \<le> 32" .
qed

lemma roundUp_one: "roundUpToPowerOfTwo 1 = 2"
  by (simp add: roundUpToPowerOfTwo_def highestOneBit_def Math_max_def)

lemma roundUp_small:
  assumes "2 \<le> sint v" "sint v \<le> 2 ^ 30"
  shows "\<exists>j \<in> {1..30}. roundUpToPowerOfTwo v = 2 ^ j \<and> sint v \<le> 2 ^ j \<and> 2 ^ (j - 1) < sint v"
proof -
  let ?n = "unat (v - 1)" and ?fl = "floorlog 2 (unat (v - 1))"
  have n: "?n = nat (sint v) - 1" using assms(1) by (intro unat_pred) simp
  then have pos: "0 < ?n" using assms(1) by simp
  note h = highestOneBit_pos [OF pos]
  have "?n < 2 ^ 30" using n assms by simp
  then have fl30: "?fl \<le> 30" by (intro floorlog_leI) simp_all
  have hi: "push_bit 1 (highestOneBit (v - 1)) = (2 ^ ?fl :: 32 word)"
    using h(1,2) by (simp add: push_bit_eq_mult power_eq_if)
  have s: "sint (2 ^ ?fl :: 32 word) = 2 ^ ?fl" using fl30 by (rule sint_pow2)
  have "(2::int) ^ 1 \<le> 2 ^ ?fl" using h(2) by (intro power_increasing) simp_all
  then have "sint (2 :: 32 word) \<le> sint (2 ^ ?fl :: 32 word)" unfolding s by simp
  then have r: "roundUpToPowerOfTwo v = 2 ^ ?fl"
    unfolding roundUpToPowerOfTwo_def Let_def hi Math_max_def by simp
  have "int ?n < 2 ^ ?fl" using h(5) by (metis of_nat_less_iff of_nat_numeral of_nat_power)
  then have up: "sint v \<le> 2 ^ ?fl" using n assms(1) by simp
  have "2 ^ (?fl - 1) \<le> int ?n" using h(4) by (metis of_nat_le_iff of_nat_numeral of_nat_power)
  then have lo: "2 ^ (?fl - 1) < sint v" using n assms(1) by simp
  show ?thesis
    using r up lo h(2) fl30 by (intro bexI [of _ ?fl]) simp_all
qed

lemma roundUp_large:
  assumes "2 ^ 30 < sint v"
  shows "roundUpToPowerOfTwo v = 2"
proof -
  let ?n = "unat (v - 1)" and ?fl = "floorlog 2 (unat (v - 1))"
  have n: "?n = nat (sint v) - 1" using assms by (intro unat_pred) simp
  then have pos: "0 < ?n" using assms by simp
  note h = highestOneBit_pos [OF pos]
  have "2 ^ 30 \<le> ?n" using n assms by simp
  then have "31 \<le> ?fl" by (intro floorlog_geI) simp_all
  moreover have "?n < 2 ^ 31"
    using n sint_lt [of v] by simp
  then have "?fl \<le> 31" by (intro floorlog_leI) simp_all
  ultimately have fl: "?fl = 31" by simp
  have hi: "push_bit 1 (highestOneBit (v - 1)) = (2 ^ 31 :: 32 word)"
    using h(1) fl by (simp add: push_bit_eq_mult)
  show ?thesis
    unfolding roundUpToPowerOfTwo_def Let_def hi Math_max_def by simp
qed

lemma roundUp_pow2:
  assumes "1 \<le> sint v"
  shows "\<exists>j \<in> {1..30}. roundUpToPowerOfTwo v = 2 ^ j"
proof -
  consider "sint v = 1" | "2 \<le> sint v" "sint v \<le> 2 ^ 30" | "2 ^ 30 < sint v"
    using assms by linarith
  then show ?thesis
  proof cases
    case 1
    then have "sint v = sint (1 :: 32 word)" by simp
    then have "v = 1" by (rule signed_word_eqI)
    then show ?thesis using roundUp_one by (intro bexI [of _ 1]) simp_all
  next
    case 2
    then show ?thesis using roundUp_small [of v] by blast
  next
    case 3
    then show ?thesis using roundUp_large [of v] by (intro bexI [of _ 1]) simp_all
  qed
qed

subsection \<open>The constructor\<close>

lemma leastPowerOfTwoI:
  assumes "p = 2 ^ j" "x \<le> 2 ^ j" "j = 0 \<or> 2 ^ (j - 1) < x"
  shows "leastPowerOfTwo p x"
proof -
  have "(2::int) ^ j \<le> 2 ^ i" if "x \<le> 2 ^ i" for i
  proof (cases "j = 0")
    case True
    then show ?thesis by simp
  next
    case False
    then have "(2::int) ^ (j - 1) < x" using assms(3) by blast
    then have "(2::int) ^ (j - 1) < 2 ^ i" using that by (rule less_le_trans)
    then have "j - 1 < i" by (simp only: power_strict_increasing_iff)
    then have "j \<le> i" by simp
    then show ?thesis by (intro power_increasing) simp_all
  qed
  then show ?thesis
    unfolding leastPowerOfTwo_def using assms(1,2) by blast
qed

lemma highestOneBit_one: "highestOneBit 1 = 1"
  by (simp add: highestOneBit_def compute_floorlog)

lemma stripes_small:
  assumes "1 \<le> sint ns" "sint ns \<le> 2 ^ 30"
  shows "\<exists>j \<in> {0..30}.
           (if highestOneBit ns = ns then ns else roundUpToPowerOfTwo ns) = 2 ^ j \<and>
           sint ns \<le> 2 ^ j \<and> (j = 0 \<or> 2 ^ (j - 1) < sint ns)"
proof (cases "highestOneBit ns = ns")
  case True
  let ?fl = "floorlog 2 (unat ns)"
  have u: "unat ns = nat (sint ns)"
    using sint_nonneg_uint [of ns] assms(1) by (simp add: unat_eq_nat_uint)
  then have pos: "0 < unat ns" using assms(1) by simp
  note h = highestOneBit_pos [OF pos]
  have "unat ns < 2 ^ 31" using u sint_lt [of ns] assms(1) by simp
  then have "?fl \<le> 31" by (intro floorlog_leI) simp_all
  then have j: "?fl - 1 \<le> 30" by simp
  have ns: "ns = 2 ^ (?fl - 1)" using True h(1) by simp
  have s: "sint ns = 2 ^ (?fl - 1)"
    using sint_pow2 [OF j] ns by simp
  have "(2::int) ^ (?fl - 1 - 1) < 2 ^ (?fl - 1)" if "?fl - 1 \<noteq> 0"
    using that by (intro power_strict_increasing) simp_all
  then show ?thesis
    using True ns s j by (intro bexI [of _ "?fl - 1"]) auto
next
  case False
  have "sint ns \<noteq> 1"
  proof
    assume "sint ns = 1"
    then have "sint ns = sint (1 :: 32 word)" by simp
    then have "ns = 1" by (rule signed_word_eqI)
    then show False using False highestOneBit_one by simp
  qed
  then have "2 \<le> sint ns" using assms(1) by simp
  then show ?thesis
    using False roundUp_small [OF _ assms(2)] by auto
qed

lemma stripes_pow2:
  assumes "1 \<le> sint ns"
  shows "\<exists>j \<in> {0..30}. (if highestOneBit ns = ns then ns else roundUpToPowerOfTwo ns) = 2 ^ j"
proof (cases "sint ns \<le> 2 ^ 30")
  case True
  then show ?thesis using stripes_small [OF assms] by blast
next
  case False
  then have large: "2 ^ 30 < sint ns" by simp
  have u: "unat ns = nat (sint ns)"
    using sint_nonneg_uint [of ns] assms(1) by (simp add: unat_eq_nat_uint)
  then have pos: "0 < unat ns" using assms(1) by simp
  note h = highestOneBit_pos [OF pos]
  have "highestOneBit ns \<noteq> ns"
  proof
    assume eq: "highestOneBit ns = ns"
    let ?fl = "floorlog 2 (unat ns)"
    have "unat ns < 2 ^ 31" using u sint_lt [of ns] assms(1) by simp
    then have "?fl \<le> 31" by (intro floorlog_leI) simp_all
    then have j: "?fl - 1 \<le> 30" by simp
    have "sint ns = 2 ^ (?fl - 1)"
      using sint_pow2 [OF j] eq h(1) by simp
    also have "\<dots> \<le> 2 ^ 30" using j by (intro power_increasing) simp_all
    finally show False using large by simp
  qed
  then show ?thesis
    using roundUp_large [OF large] by (intro bexI [of _ 1]) simp_all
qed

lemma empty_table_inv:
  assumes "\<exists>j \<in> {1..30}. n = 2 ^ j" "\<exists>j \<in> {0..30}. ns = 2 ^ j"
  shows "map_inv hc \<lparr>table = replicate n [], numStripes = ns, loadFactor = lf,
                      size_field = 0, lockLog = []\<rparr>"
  using assms by (simp add: map_inv_def entries_def)

lemma construct_ok:
  assumes "0 < sint ic" "0 < sint ns" "\<not> float_le_zero lf" "\<not> isNaN lf"
  shows "\<exists>j \<in> {1..30}. roundUpToPowerOfTwo ic = 2 ^ j \<and>
           newStripedHashMap ic lf ns =
             Inr \<lparr>table = replicate (2 ^ j) [],
                  numStripes = (if highestOneBit ns = ns then ns else roundUpToPowerOfTwo ns),
                  loadFactor = lf, size_field = 0, lockLog = []\<rparr>"
proof -
  obtain j where j: "j \<in> {1..30}" "roundUpToPowerOfTwo ic = 2 ^ j"
    using roundUp_pow2 [of ic] assms(1) by auto
  have "nat (sint (2 ^ j :: 32 word)) = 2 ^ j"
    using j(1) sint_pow2 [of j] by (simp add: nat_power_eq)
  then show ?thesis
    using assms j by (intro bexI [of _ j]) (simp_all add: newStripedHashMap_def Let_def)
qed

lemma construct_inv:
  fixes s :: "('k, 'v) StripedHashMap"
  assumes "newStripedHashMap ic lf ns = Inr s"
  shows "map_inv hc s" and "entries s = []" and "size_field s = 0" and "loadFactor s = lf"
    and "lockLog s = []"
proof -
  have ok: "0 < sint ic" "0 < sint ns" "\<not> float_le_zero lf" "\<not> isNaN lf"
    using assms by (auto simp: newStripedHashMap_def split: if_splits)
  obtain j where j0: "j \<in> {1..30}"
    "newStripedHashMap ic lf ns = Inr (\<lparr>table = replicate (2 ^ j) [],
      numStripes = (if highestOneBit ns = ns then ns else roundUpToPowerOfTwo ns),
      loadFactor = lf, size_field = 0, lockLog = []\<rparr> :: ('k, 'v) StripedHashMap)"
    using construct_ok [OF ok] by blast
  note trans [OF assms [symmetric] j0(2)]
  then have j: "j \<in> {1..30}" "s = \<lparr>table = replicate (2 ^ j) [],
      numStripes = (if highestOneBit ns = ns then ns else roundUpToPowerOfTwo ns),
      loadFactor = lf, size_field = 0, lockLog = []\<rparr>"
    using j0(1) by (simp_all only: sum.inject)
  have "\<exists>j \<in> {0..30}. (if highestOneBit ns = ns then ns else roundUpToPowerOfTwo ns) = 2 ^ j"
    using ok(2) by (intro stripes_pow2) simp
  then show "map_inv hc s"
    unfolding j(2) using j(1) by (intro empty_table_inv) blast+
  show "entries s = []" and "size_field s = 0" and "loadFactor s = lf" and "lockLog s = []"
    by (simp_all add: j(2) entries_def)
qed

subsection \<open>The default map\<close>

lemma roundUp_16: "roundUpToPowerOfTwo 16 = 16"
  by code_simp

lemma highestOneBit_16: "highestOneBit 16 = 16"
  by code_simp

lemma defaultMap_eq: "newStripedHashMap_default = Inr defaultMap"
  by (simp add: newStripedHashMap_default_def newStripedHashMap_def DEFAULT_INITIAL_CAPACITY_def
      DEFAULT_LOAD_FACTOR_def DEFAULT_NUM_STRIPES_def float_le_zero_def isNaN_def roundUp_16
      highestOneBit_16 defaultMap_def)

lemma defaultMap_inv: "map_inv hc defaultMap"
  using construct_inv(1) [OF defaultMap_eq [unfolded newStripedHashMap_default_def]] .

lemma lookup_empty:
  assumes "map_inv hc s" "entries s = []"
  shows "lookup hc s k = None"
proof (cases "lookup hc s k")
  case None
  then show ?thesis .
next
  case (Some n)
  then show ?thesis using lookup_entries [OF assms(1), of k n] assms(2) by simp
qed

subsection \<open>The other keyed operations\<close>

lemma remove_present:
  assumes "map_inv hc s" "lookup hc s k = Some n"
  shows "table (fst (remove hc s (Some k))) =
           (table s)[bucketOf hc (table s) k :=
              unlinkNode (spread (hc k)) k (table s ! bucketOf hc (table s) k)]"
    and "size_field (fst (remove hc s (Some k))) = size_field s - 1"
    and "numStripes (fst (remove hc s (Some k))) = numStripes s"
    and "loadFactor (fst (remove hc s (Some k))) = loadFactor s"
    and "snd (remove hc s (Some k)) = Inr (val n)"
  using map_inv_inBounds [OF assms(1), of "spread (hc k)"] assms(2)
  by (simp_all add: remove_def Let_def lookup_def bucketOf_def)

lemma remove_absent:
  assumes "map_inv hc s" "lookup hc s k = None"
  shows "table (fst (remove hc s (Some k))) = table s"
    and "size_field (fst (remove hc s (Some k))) = size_field s"
    and "numStripes (fst (remove hc s (Some k))) = numStripes s"
    and "loadFactor (fst (remove hc s (Some k))) = loadFactor s"
    and "snd (remove hc s (Some k)) = Inr None"
  using map_inv_inBounds [OF assms(1), of "spread (hc k)"] assms(2)
  by (simp_all add: remove_def Let_def lookup_def bucketOf_def)

lemma unlinkNode_inv:
  assumes "map_inv hc s" "lookup hc s k = Some n"
  shows "map_inv hc (s\<lparr>table := (table s)[bucketOf hc (table s) k :=
              unlinkNode (spread (hc k)) k (table s ! bucketOf hc (table s) k)],
            size_field := size_field s - 1\<rparr>)"
proof -
  let ?t = "table s" and ?i = "bucketOf hc (table s) k" and ?h = "spread (hc k)"
  let ?t' = "?t[?i := unlinkNode ?h k (?t ! ?i)]"
  have lt: "?i < length ?t" using map_inv_bucketOf_lt [OF assms(1)] .
  have found: "findNode ?h k (?t ! ?i) = Some n" using assms(2) by (simp add: lookup_def)
  have b: "bucketOf hc ?t' k' = bucketOf hc ?t k'" for k'
    by (intro bucketOf_cong) simp
  have cap: "\<exists>j \<in> {1..30}. length ?t' = 2 ^ j"
    using assms(1) by (simp add: map_inv_def)
  have stripes: "\<exists>j \<in> {0..30}. numStripes s = 2 ^ j"
    using assms(1) by (simp add: map_inv_def)
  have sub: "n' \<in> set (?t ! i')" if "i' < length ?t'" "n' \<in> set (?t' ! i')" for i' n'
    using that set_unlinkNode_subset [of ?h k "?t ! ?i"]
    by (cases "i' = ?i") (auto simp: nth_list_update)
  have nodes: "hash n' = spread (hc (key n')) \<and> bucketOf hc ?t' (key n') = i'"
    if "i' < length ?t'" "n' \<in> set (?t' ! i')" for i' n'
    using map_inv_node [OF assms(1), of i' n'] sub [OF that] that(1) by (simp add: b)
  have dist: "distinct (map key (?t' ! i'))" if "i' < length ?t'" for i'
    using that map_inv_distinct [OF assms(1), of i'] distinct_unlinkNode [of "?t ! ?i" ?h k]
    by (cases "i' = ?i") (auto simp: nth_list_update)
  have len: "Suc (length (concat ?t')) = length (concat ?t)"
    using length_concat_update [OF lt, of "unlinkNode ?h k (?t ! ?i)"]
      length_unlinkNode [OF found] by simp
  have "size_field s - 1 = word_of_nat (Suc (length (concat ?t'))) - 1"
    using map_inv_size [OF assms(1)] unfolding len by (simp add: entries_def)
  then have sz: "size_field s - 1 = word_of_nat (length (concat ?t'))" by simp
  show ?thesis
    unfolding map_inv_def entries_def using cap stripes nodes dist sz by simp
qed

lemma unlinkNode_lookup:
  assumes "map_inv hc s"
  shows "lookup hc (s\<lparr>table := (table s)[bucketOf hc (table s) k :=
              unlinkNode (spread (hc k)) k (table s ! bucketOf hc (table s) k)],
            size_field := z\<rparr>) k' = (if k' = k then None else lookup hc s k')"
proof -
  let ?t = "table s" and ?i = "bucketOf hc (table s) k" and ?h = "spread (hc k)"
  let ?t' = "?t[?i := unlinkNode ?h k (?t ! ?i)]"
  have lt: "?i < length ?t" using map_inv_bucketOf_lt [OF assms(1)] .
  have b: "bucketOf hc ?t' k'' = bucketOf hc ?t k''" for k''
    by (intro bucketOf_cong) simp
  have d: "distinct (map key (?t ! ?i))" using map_inv_distinct [OF assms lt] .
  show ?thesis
  proof (cases "k' = k")
    case True
    then show ?thesis
      using lt d by (simp add: lookup_def b findNode_unlinkNode_same)
  next
    case False
    then show ?thesis
      using lt
      by (cases "bucketOf hc ?t k' = ?i")
         (simp_all add: lookup_def b findNode_unlinkNode_other)
  qed
qed

lemma remove_inv:
  assumes "map_inv hc s"
  shows "map_inv hc (fst (remove hc s (Some k)))"
proof (cases "lookup hc s k")
  case None
  show ?thesis
    using remove_absent [OF assms None] assms
    by (subst map_inv_fields [of _ s]) simp_all
next
  case (Some n)
  show ?thesis
    using remove_present [OF assms Some] unlinkNode_inv [OF assms Some]
    by (subst map_inv_fields [of _ "s\<lparr>table := (table s)[bucketOf hc (table s) k :=
              unlinkNode (spread (hc k)) k (table s ! bucketOf hc (table s) k)],
            size_field := size_field s - 1\<rparr>"]) simp_all
qed

lemma remove_lookup:
  assumes "map_inv hc s"
  shows "lookup hc (fst (remove hc s (Some k))) k' = (if k' = k then None else lookup hc s k')"
proof (cases "lookup hc s k")
  case None
  have "lookup hc (fst (remove hc s (Some k))) k' = lookup hc s k'"
    using remove_absent(1) [OF assms None] by (rule lookup_table_cong)
  then show ?thesis using None by simp
next
  case (Some n)
  let ?s' = "s\<lparr>table := (table s)[bucketOf hc (table s) k :=
              unlinkNode (spread (hc k)) k (table s ! bucketOf hc (table s) k)],
            size_field := size_field s - 1\<rparr>"
  have "lookup hc (fst (remove hc s (Some k))) k' = lookup hc ?s' k'"
    using remove_present(1) [OF assms Some] by (intro lookup_table_cong) simp
  then show ?thesis by (simp add: unlinkNode_lookup [OF assms])
qed

lemma putIfAbsent_present:
  assumes "map_inv hc s" "lookup hc s k = Some n"
  shows "table (fst (putIfAbsent hc s (Some k) v)) = table s"
    and "size_field (fst (putIfAbsent hc s (Some k) v)) = size_field s"
    and "numStripes (fst (putIfAbsent hc s (Some k) v)) = numStripes s"
    and "loadFactor (fst (putIfAbsent hc s (Some k) v)) = loadFactor s"
    and "snd (putIfAbsent hc s (Some k) v) = Inr (val n)"
  using map_inv_inBounds [OF assms(1), of "spread (hc k)"] assms(2)
  by (simp_all add: putIfAbsent_def Let_def lookup_def bucketOf_def)

lemma putIfAbsent_absent:
  assumes "map_inv hc s" "lookup hc s k = None"
  shows "table (fst (putIfAbsent hc s (Some k) v)) = table (grow (insertNode hc s k v))"
    and "size_field (fst (putIfAbsent hc s (Some k) v)) = size_field s + 1"
    and "numStripes (fst (putIfAbsent hc s (Some k) v)) = numStripes s"
    and "loadFactor (fst (putIfAbsent hc s (Some k) v)) = loadFactor s"
    and "snd (putIfAbsent hc s (Some k) v) =
           (if needsResize s (arrayLength (table s)) (size_field s + 1) \<and> length (table s) = 2 ^ 30
            then Inl IllegalMonitorStateException else Inr None)"
proof -
  define bl where "bl = StripeLock (nat (sint (stripeFor s (spread (hc k)))))"
  define X where "X = unlock bl WriteLock
    ((lock bl WriteLock (lock TableLock ReadLock s))
       \<lparr>table := table (insertNode hc s k v), size_field := size_field s + 1\<rparr>)"
  let ?nr = "needsResize s (arrayLength (table s)) (size_field s + 1)"
  have eq: "putIfAbsent hc s (Some k) v =
     (if ?nr
      then (case resizeIfNeeded X of
              (s4, Inl e) \<Rightarrow> (unlock TableLock ReadLock s4, Inl IllegalMonitorStateException)
            | (s4, Inr _) \<Rightarrow>
                (unlock TableLock ReadLock (unlock bl WriteLock (lock bl WriteLock s4)), Inr None))
      else (unlock TableLock ReadLock X, Inr None))"
    unfolding X_def bl_def
    using map_inv_inBounds [OF assms(1), of "spread (hc k)"] assms(2)
    by (simp add: putIfAbsent_def Let_def lookup_def bucketOf_def insertNode_def)
  have X: "table X = table (insertNode hc s k v)" "loadFactor X = loadFactor s"
    "size_field X = size_field s + 1" "numStripes X = numStripes s"
    by (simp_all add: X_def)
  have capX: "\<exists>j \<le> 30. length (table X) = 2 ^ j"
    using map_inv_capacity [OF assms(1)] by (auto simp: X)
  have g: "table (grow X) = table (grow (insertNode hc s k v))"
    using X by (intro table_grow_cong) simp_all
  have nrX: "needsResize X (arrayLength (table X)) (size_field X) = ?nr"
    by (simp add: X needsResize_def arrayLength_def)
  note tail = insert_tail [OF capX, of bl "None :: 'b option"]
  show "table (fst (putIfAbsent hc s (Some k) v)) = table (grow (insertNode hc s k v))"
  proof (cases ?nr)
    case True
    then show ?thesis by (simp add: eq tail g)
  next
    case False
    then show ?thesis by (simp add: eq X grow_def arrayLength_def)
  qed
  show "size_field (fst (putIfAbsent hc s (Some k) v)) = size_field s + 1"
    by (cases ?nr) (simp_all add: eq tail X)
  show "numStripes (fst (putIfAbsent hc s (Some k) v)) = numStripes s"
    by (cases ?nr) (simp_all add: eq tail X)
  show "loadFactor (fst (putIfAbsent hc s (Some k) v)) = loadFactor s"
    by (cases ?nr) (simp_all add: eq tail X)
  show "snd (putIfAbsent hc s (Some k) v) =
           (if ?nr \<and> length (table s) = 2 ^ 30
            then Inl IllegalMonitorStateException else Inr None)"
  proof (cases ?nr)
    case True
    have "snd (putIfAbsent hc s (Some k) v) =
        (if needsResize X (arrayLength (table X)) (size_field X) \<and> length (table X) = 2 ^ 30
         then Inl IllegalMonitorStateException else Inr None)"
      using True by (simp only: eq tail if_True)
    then show ?thesis unfolding nrX by (simp add: X)
  next
    case False
    then show ?thesis by (simp add: eq)
  qed
qed

lemma putIfAbsent_inv:
  assumes "map_inv hc s"
  shows "map_inv hc (fst (putIfAbsent hc s (Some k) v))"
proof (cases "lookup hc s k")
  case None
  have "map_inv hc (grow (insertNode hc s k v))"
    using insertNode_inv [OF assms None] by (rule grow_inv)
  then show ?thesis
    using putIfAbsent_absent [OF assms None, of v]
    by (subst map_inv_fields [of _ "grow (insertNode hc s k v)"]) simp_all
next
  case (Some n)
  show ?thesis
    using putIfAbsent_present [OF assms Some] assms
    by (subst map_inv_fields [of _ s]) simp_all
qed

lemma replace_fields:
  assumes "map_inv hc s"
  shows "table (fst (replace hc s (Some k) old new)) =
           (case lookup hc s k of
              Some n \<Rightarrow>
                if val n = old
                then (table s)[bucketOf hc (table s) k :=
                       setNodeValue (spread (hc k)) k new (table s ! bucketOf hc (table s) k)]
                else table s
            | None \<Rightarrow> table s)"
    and "size_field (fst (replace hc s (Some k) old new)) = size_field s"
    and "numStripes (fst (replace hc s (Some k) old new)) = numStripes s"
    and "loadFactor (fst (replace hc s (Some k) old new)) = loadFactor s"
    and "snd (replace hc s (Some k) old new) =
           Inr (case lookup hc s k of Some n \<Rightarrow> val n = old | None \<Rightarrow> False)"
  using map_inv_inBounds [OF assms(1), of "spread (hc k)"]
  by (simp_all add: replace_def Let_def lookup_def bucketOf_def split: option.splits)

lemma replace_inv:
  assumes "map_inv hc s"
  shows "map_inv hc (fst (replace hc s (Some k) old new))"
proof (cases "\<exists>n. lookup hc s k = Some n \<and> val n = old")
  case True
  let ?s' = "s\<lparr>table := (table s)[bucketOf hc (table s) k :=
             setNodeValue (spread (hc k)) k new (table s ! bucketOf hc (table s) k)]\<rparr>"
  have "map_inv hc ?s'"
    using assms map_inv_bucketOf_lt [OF assms] by (rule setNodeValue_inv)
  then show ?thesis
    using replace_fields [OF assms, of k old new] True
    by (subst map_inv_fields [of _ ?s']) auto
next
  case False
  then have "table (fst (replace hc s (Some k) old new)) = table s"
    using replace_fields(1) [OF assms, of k old new] by (auto split: option.splits)
  then show ?thesis
    using replace_fields(2,3) [OF assms, of k old new] assms
    by (subst map_inv_fields [of _ s]) simp_all
qed

lemma concat_map_Nil [simp]: "concat (map (\<lambda>_. []) xs) = []"
  by (induction xs) simp_all

lemma clear_inv: "map_inv hc s \<Longrightarrow> map_inv hc (clear s)"
  by (simp add: map_inv_def clear_def Let_def entries_def lock_def unlock_def bucketOf_def
        arrayLength_def)

lemma clear_entries: "entries (clear s) = []"
  by (simp add: clear_def Let_def entries_def lock_def unlock_def)

lemma containsKey_fields:
  "table (fst (containsKey hc s key_arg)) = table s"
  "numStripes (fst (containsKey hc s key_arg)) = numStripes s"
  "loadFactor (fst (containsKey hc s key_arg)) = loadFactor s"
  "size_field (fst (containsKey hc s key_arg)) = size_field s"
  using get_fields [of hc s key_arg]
  by (auto simp: containsKey_def split: prod.splits sum.splits)

lemma containsKey_result:
  assumes "map_inv hc s"
  shows "snd (containsKey hc s (Some k)) =
           Inr (case lookup hc s k of None \<Rightarrow> False | Some n \<Rightarrow> val n \<noteq> None)"
proof -
  obtain s' r where eq: "get hc s (Some k) = (s', r)" by (cases "get hc s (Some k)")
  then have "r = Inr (case lookup hc s k of None \<Rightarrow> None | Some n \<Rightarrow> val n)"
    using get_result [OF assms, of k] by simp
  then show ?thesis
    by (cases "lookup hc s k") (simp_all add: containsKey_def eq)
qed

subsection \<open>computeIfAbsent and null arguments\<close>

lemma insert_tail3:
  fixes X :: "('k, 'v) StripedHashMap" and bl :: lock_id and r :: "'r" and u :: "'u"
  assumes "\<exists>j \<le> 30. length (table X) = 2 ^ j"
  defines "res \<equiv> (case resizeIfNeeded X of
              (s4, Inl e) \<Rightarrow> (unlock TableLock ReadLock s4, u, Inl IllegalMonitorStateException)
            | (s4, Inr _) \<Rightarrow>
                (unlock TableLock ReadLock (unlock bl WriteLock (lock bl WriteLock s4)), u, Inr r))"
  shows "table (fst res) = table (grow X)"
    and "size_field (fst res) = size_field X"
    and "numStripes (fst res) = numStripes X"
    and "loadFactor (fst res) = loadFactor X"
    and "fst (snd res) = u"
    and "snd (snd res) =
           (if needsResize X (arrayLength (table X)) (size_field X) \<and> length (table X) = 2 ^ 30
            then Inl IllegalMonitorStateException else Inr r)"
proof -
  obtain j where j: "j \<le> 30" "length (table X) = 2 ^ j" using assms(1) by blast
  obtain s4 out where eq: "resizeIfNeeded X = (s4, out)" by (cases "resizeIfNeeded X")
  have s4: "table s4 = table (grow X)" "size_field s4 = size_field X"
    "numStripes s4 = numStripes X" "loadFactor s4 = loadFactor X"
    "out = (if needsResize X (arrayLength (table X)) (size_field X) \<and> length (table X) = 2 ^ 30
            then Inl NegativeArraySizeException else Inr ())"
    using resizeIfNeeded_grow_eq [OF j] resizeIfNeeded_fields [of X] by (simp_all add: eq)
  show "table (fst res) = table (grow X)"
    and "size_field (fst res) = size_field X"
    and "numStripes (fst res) = numStripes X"
    and "loadFactor (fst res) = loadFactor X"
    and "fst (snd res) = u"
    and "snd (snd res) =
           (if needsResize X (arrayLength (table X)) (size_field X) \<and> length (table X) = 2 ^ 30
            then Inl IllegalMonitorStateException else Inr r)"
    using s4 by (simp_all add: res_def eq)
qed

lemma computeIfAbsent_present:
  assumes "map_inv hc s" "lookup hc s k = Some n"
  shows "table (fst (computeIfAbsent hc s (Some k) (Some f) u)) = table s"
    and "size_field (fst (computeIfAbsent hc s (Some k) (Some f) u)) = size_field s"
    and "numStripes (fst (computeIfAbsent hc s (Some k) (Some f) u)) = numStripes s"
    and "loadFactor (fst (computeIfAbsent hc s (Some k) (Some f) u)) = loadFactor s"
    and "fst (snd (computeIfAbsent hc s (Some k) (Some f) u)) = u"
    and "snd (snd (computeIfAbsent hc s (Some k) (Some f) u)) = Inr (val n)"
  using map_inv_inBounds [OF assms(1), of "spread (hc k)"] assms(2)
  by (simp_all add: computeIfAbsent_def Let_def lookup_def bucketOf_def)

lemma computeIfAbsent_absent:
  assumes "map_inv hc s" "lookup hc s k = None"
  shows "table (fst (computeIfAbsent hc s (Some k) (Some f) u))
           = table (grow (insertNode hc s k (fst (f k u))))"
    and "size_field (fst (computeIfAbsent hc s (Some k) (Some f) u)) = size_field s + 1"
    and "numStripes (fst (computeIfAbsent hc s (Some k) (Some f) u)) = numStripes s"
    and "loadFactor (fst (computeIfAbsent hc s (Some k) (Some f) u)) = loadFactor s"
    and "fst (snd (computeIfAbsent hc s (Some k) (Some f) u)) = snd (f k u)"
    and "snd (snd (computeIfAbsent hc s (Some k) (Some f) u)) =
           (if needsResize s (arrayLength (table s)) (size_field s + 1) \<and> length (table s) = 2 ^ 30
            then Inl IllegalMonitorStateException else Inr (fst (f k u)))"
proof -
  define v where "v = fst (f k u)"
  define u' where "u' = snd (f k u)"
  have fku: "f k u = (v, u')" by (simp add: v_def u'_def)
  define bl where "bl = StripeLock (nat (sint (stripeFor s (spread (hc k)))))"
  define X where "X = unlock bl WriteLock
    ((lock bl WriteLock (lock TableLock ReadLock s))
       \<lparr>table := table (insertNode hc s k v), size_field := size_field s + 1\<rparr>)"
  let ?nr = "needsResize s (arrayLength (table s)) (size_field s + 1)"
  let ?c = "computeIfAbsent hc s (Some k) (Some f) u"
  have eq: "?c =
     (if ?nr
      then (case resizeIfNeeded X of
              (s4, Inl e) \<Rightarrow> (unlock TableLock ReadLock s4, u', Inl IllegalMonitorStateException)
            | (s4, Inr _) \<Rightarrow>
                (unlock TableLock ReadLock (unlock bl WriteLock (lock bl WriteLock s4)), u', Inr v))
      else (unlock TableLock ReadLock X, u', Inr v))"
    unfolding X_def bl_def
    using map_inv_inBounds [OF assms(1), of "spread (hc k)"] assms(2)
    by (simp add: computeIfAbsent_def Let_def lookup_def bucketOf_def insertNode_def fku)
  have X: "table X = table (insertNode hc s k v)" "loadFactor X = loadFactor s"
    "size_field X = size_field s + 1" "numStripes X = numStripes s"
    by (simp_all add: X_def)
  have capX: "\<exists>j \<le> 30. length (table X) = 2 ^ j"
    using map_inv_capacity [OF assms(1)] by (auto simp: X)
  have g: "table (grow X) = table (grow (insertNode hc s k v))"
    using X by (intro table_grow_cong) simp_all
  have nrX: "needsResize X (arrayLength (table X)) (size_field X) = ?nr"
    by (simp add: X needsResize_def arrayLength_def)
  note tail = insert_tail3 [OF capX, of u' bl v]
  show "table (fst ?c) = table (grow (insertNode hc s k v))"
  proof (cases ?nr)
    case True
    then show ?thesis by (simp add: eq tail g)
  next
    case False
    then show ?thesis by (simp add: eq X grow_def arrayLength_def)
  qed
  show "size_field (fst ?c) = size_field s + 1"
    by (cases ?nr) (simp_all add: eq tail X)
  show "numStripes (fst ?c) = numStripes s"
    by (cases ?nr) (simp_all add: eq tail X)
  show "loadFactor (fst ?c) = loadFactor s"
    by (cases ?nr) (simp_all add: eq tail X)
  show "fst (snd ?c) = u'"
    by (cases ?nr) (simp_all add: eq tail X)
  show "snd (snd ?c) =
           (if ?nr \<and> length (table s) = 2 ^ 30
            then Inl IllegalMonitorStateException else Inr v)"
  proof (cases ?nr)
    case True
    have "snd (snd ?c) =
        (if needsResize X (arrayLength (table X)) (size_field X) \<and> length (table X) = 2 ^ 30
         then Inl IllegalMonitorStateException else Inr v)"
      using True by (simp only: eq tail if_True)
    then show ?thesis unfolding nrX by (simp add: X)
  next
    case False
    then show ?thesis by (simp add: eq)
  qed
qed

lemma computeIfAbsent_inv:
  assumes "map_inv hc s"
  shows "map_inv hc (fst (computeIfAbsent hc s (Some k) (Some f) u))"
proof (cases "lookup hc s k")
  case None
  have "map_inv hc (grow (insertNode hc s k (fst (f k u))))"
    using insertNode_inv [OF assms None] by (rule grow_inv)
  then show ?thesis
    using computeIfAbsent_absent [OF assms None, of f u]
    by (subst map_inv_fields [of _ "grow (insertNode hc s k (fst (f k u)))"]) simp_all
next
  case (Some n)
  show ?thesis
    using computeIfAbsent_present [OF assms Some] assms
    by (subst map_inv_fields [of _ s]) simp_all
qed

lemma null_key:
  "put hc s None v = (s, Inl NullPointerException)"
  "get hc s None = (s, Inl NullPointerException)"
  "remove hc s None = (s, Inl NullPointerException)"
  "containsKey hc s None = (s, Inl NullPointerException)"
  "putIfAbsent hc s None v = (s, Inl NullPointerException)"
  "replace hc s None old new = (s, Inl NullPointerException)"
  "computeIfAbsent hc s None g u = (s, u, Inl NullPointerException)"
  by (simp_all add: put_def get_def remove_def containsKey_def putIfAbsent_def replace_def
        computeIfAbsent_def)

lemma computeIfAbsent_null_function:
  "computeIfAbsent hc s (Some k) None u = (s, u, Inl NullPointerException)"
  by (simp add: computeIfAbsent_def)

subsection \<open>The iteration of \<open>forEach\<close>\<close>

lemma sint_of_nat: "n < 2 ^ 31 \<Longrightarrow> sint (word_of_nat n :: 32 word) = int n"
proof -
  assume n: "n < 2 ^ 31"
  then have "n < 2 ^ 32" by simp
  then have "unat (word_of_nat n :: 32 word) = n"
    by (simp add: unat_of_nat)
  then have u: "uint (word_of_nat n :: 32 word) = int n"
    by (simp add: uint_nat)
  then show ?thesis using n by (simp add: sint_small)
qed

lemma not_congruent_between:
  assumes "i < x" "x < i + N"
  shows "x mod N \<noteq> i mod (N::nat)"
proof
  assume "x mod N = i mod N"
  then have "N dvd x - i" using assms(1) by (simp add: mod_eq_dvd_iff_nat)
  moreover have "0 < x - i" "x - i < N" using assms by simp_all
  ultimately show False by (simp add: nat_dvd_not_less)
qed

lemma filter_congruent_step:
  assumes "0 < (N::nat)"
  shows "filter (\<lambda>x. x mod N = i mod N) [Suc i..<L] = filter (\<lambda>x. x mod N = i mod N) [i + N..<L]"
proof (cases "i + N \<le> L")
  case True
  have "Suc i \<le> i + N" using assms by simp
  then have "[Suc i..<L] = [Suc i..<i + N] @ [i + N..<L]"
    using True by (metis le_Suc_ex upt_add_eq_append)
  moreover have "filter (\<lambda>x. x mod N = i mod N) [Suc i..<i + N] = []"
    using not_congruent_between [of i _ N] by (auto simp: filter_empty_conv)
  ultimately show ?thesis by simp
next
  case False
  then have "filter (\<lambda>x. x mod N = i mod N) [Suc i..<L] = []"
    using not_congruent_between [of i _ N] by (auto simp: filter_empty_conv)
  then show ?thesis using False by simp
qed

lemma forEachIndex_run:
  assumes "length t \<le> 2 ^ 30" "0 < N" "N \<le> 2 ^ 30"
  shows "i < 2 ^ 31 \<Longrightarrow>
     forEachIndex t (word_of_nat N) action (word_of_nat i) u =
       Some (fold (\<lambda>x. visitChain action (t ! x))
               (filter (\<lambda>x. x mod N = i mod N) [i..<length t]) u, Inr ())"
proof (induction "length t - i" arbitrary: i u rule: less_induct)
  case less
  have si: "sint (word_of_nat i :: 32 word) = int i" using less.prems by (rule sint_of_nat)
  have sl: "sint (arrayLength t) = int (length t)"
    unfolding arrayLength_def using assms(1) by (intro sint_of_nat) simp
  show ?case
  proof (cases "i < length t")
    case False
    then show ?thesis
      by (subst forEachIndex.simps) (simp add: si sl)
  next
    case True
    have inb: "inBounds (word_of_nat i) (length t)"
      using True by (simp add: inBounds_def si)
    have next_lt: "i + N < 2 ^ 31" using True assms(1,3) by simp
    have step: "forEachIndex t (word_of_nat N) action (word_of_nat i) u =
        forEachIndex t (word_of_nat N) action (word_of_nat (i + N))
          (visitChain action (t ! i) u)"
      using True inb by (subst forEachIndex.simps) (simp add: si sl)
    have "length t - (i + N) < length t - i" using True assms(2) by simp
    from less.hyps [OF this next_lt, of "visitChain action (t ! i) u"]
    have "forEachIndex t (word_of_nat N) action (word_of_nat (i + N))
            (visitChain action (t ! i) u) =
          Some (fold (\<lambda>x. visitChain action (t ! x))
                 (filter (\<lambda>x. x mod N = i mod N) [i + N..<length t])
                 (visitChain action (t ! i) u), Inr ())"
      by simp
    moreover have "filter (\<lambda>x. x mod N = i mod N) [i..<length t] =
        i # filter (\<lambda>x. x mod N = i mod N) [i + N..<length t]"
      using True filter_congruent_step [OF assms(2), of i "length t"] by (simp add: upt_rec [of i])
    ultimately show ?thesis using step by simp
  qed
qed


lemma fold_visitChain: "fold (\<lambda>x. visitChain action (t ! x)) xs u
    = visitChain action (concat (map (\<lambda>x. t ! x) xs)) u"
proof -
  have app: "visitChain action (a @ b) u' = visitChain action b (visitChain action a u')" for a b u'
    by (induction a arbitrary: u') simp_all
  show ?thesis
    by (induction xs arbitrary: u) (simp_all add: app)
qed

lemma stripeIndices_from:
  assumes "\<sigma> < N"
  shows "filter (\<lambda>x. x mod N = \<sigma> mod N) [\<sigma>..<L] = stripeIndices N L \<sigma>"
proof -
  have none: "filter (\<lambda>x. x mod N = \<sigma>) [0..<min \<sigma> L] = []"
    using assms by (auto simp: filter_empty_conv)
  have "[0..<L] = [0..<min \<sigma> L] @ [min \<sigma> L..<L]"
    by (metis min.cobounded2 upt_add_eq_append le_add_diff_inverse zero_le)
  then have "stripeIndices N L \<sigma> = filter (\<lambda>x. x mod N = \<sigma>) [min \<sigma> L..<L]"
    unfolding stripeIndices_def using none by (metis append_Nil filter_append)
  moreover have "[min \<sigma> L..<L] = [\<sigma>..<L]"
    by (cases "\<sigma> \<le> L") (simp_all add: min_def)
  ultimately show ?thesis using assms by simp
qed

lemma forEachStripe_run:
  fixes s :: "('k, 'v) StripedHashMap"
  assumes "length t \<le> 2 ^ 30" "0 < N" "N \<le> 2 ^ 30"
  shows "numStripes s = word_of_nat N \<Longrightarrow> \<sigma> \<le> N \<Longrightarrow>
     \<exists>s'. forEachStripe s t action (word_of_nat \<sigma>) u =
       Some (s', fold (\<lambda>\<sigma>'. fold (\<lambda>x. visitChain action (t ! x)) (stripeIndices N (length t) \<sigma>'))
               [\<sigma>..<N] u, Inr ()) \<and>
       table s' = table s \<and> size_field s' = size_field s \<and> numStripes s' = numStripes s \<and>
       loadFactor s' = loadFactor s"
proof (induction "N - \<sigma>" arbitrary: \<sigma> u s rule: less_induct)
  case less
  have N31: "N < 2 ^ 31" using assms(3) by simp
  have sn: "sint (numStripes s) = int N"
    unfolding less.prems(1) using N31 by (rule sint_of_nat)
  have "\<sigma> < 2 ^ 31" using less.prems(2) N31 by simp
  then have ss: "sint (word_of_nat \<sigma> :: 32 word) = int \<sigma>" by (rule sint_of_nat)
  show ?case
  proof (cases "\<sigma> < N")
    case False
    then have c: "\<not> sint (word_of_nat \<sigma> :: 32 word) < sint (numStripes s)"
      by (simp add: ss sn)
    have "N \<le> \<sigma>" using False by simp
    then show ?thesis
      using c by (subst forEachStripe.simps) simp
  next
    case True
    let ?bl = "StripeLock \<sigma>"
    let ?s1 = "unlock ?bl ReadLock (lock ?bl ReadLock s)"
    let ?u1 = "fold (\<lambda>x. visitChain action (t ! x)) (stripeIndices N (length t) \<sigma>) u"
    have inb: "inBounds (word_of_nat \<sigma>) (nat (sint (numStripes s)))"
      using True by (simp add: inBounds_def ss sn)
    have "\<sigma> < 2 ^ 31" using True N31 by simp
    from forEachIndex_run [OF assms this, of action u]
    have inner: "forEachIndex t (numStripes s) action (word_of_nat \<sigma>) u = Some (?u1, Inr ())"
      using stripeIndices_from [OF True] by (simp add: less.prems(1))
    have step: "forEachStripe s t action (word_of_nat \<sigma>) u =
        forEachStripe ?s1 t action (word_of_nat (Suc \<sigma>)) ?u1"
      using True inb inner
      by (subst forEachStripe.simps) (simp add: ss sn add.commute)
    have "N - Suc \<sigma> < N - \<sigma>" using True by simp
    from less.hyps [OF this, of ?s1 ?u1]
    obtain s' where s': "forEachStripe ?s1 t action (word_of_nat (Suc \<sigma>)) ?u1 =
       Some (s', fold (\<lambda>\<sigma>'. fold (\<lambda>x. visitChain action (t ! x)) (stripeIndices N (length t) \<sigma>'))
               [Suc \<sigma>..<N] ?u1, Inr ())"
      "table s' = table s" "size_field s' = size_field s" "numStripes s' = numStripes s"
      "loadFactor s' = loadFactor s"
      using True less.prems(1) by auto
    have "[\<sigma>..<N] = \<sigma> # [Suc \<sigma>..<N]" using True by (simp add: upt_rec)
    then show ?thesis using step s' by auto
  qed
qed






lemma fold_fold_concat: "fold (\<lambda>y. fold g (h y)) ys u = fold g (concat (map h ys)) u"
  by (induction ys arbitrary: u) simp_all

lemma forEach_run:
  fixes s :: "('k, 'v) StripedHashMap"
  assumes "map_inv hc s"
  shows "\<exists>s'. forEach s (Some action) u =
       Some (s', visitChain action
                   (concat (map (\<lambda>i. table s ! i)
                      (visitOrder (nat (sint (numStripes s))) (length (table s))))) u,
             Inr ()) \<and>
       table s' = table s \<and> size_field s' = size_field s \<and> numStripes s' = numStripes s \<and>
       loadFactor s' = loadFactor s"
proof -
  let ?N = "nat (sint (numStripes s))" and ?t = "table s"
  obtain j where j: "j \<le> 30" "numStripes s = 2 ^ j"
    using map_inv_stripes [OF assms] by blast
  have N: "?N = 2 ^ j" using sint_pow2 [OF j(1)] j(2) by (simp add: nat_power_eq)
  have N0: "0 < ?N" unfolding N by simp
  have N30: "?N \<le> 2 ^ 30" unfolding N using j(1) by (intro power_increasing) simp_all
  have wN: "numStripes (lock TableLock ReadLock s) = word_of_nat ?N"
    unfolding N using j(2) by simp
  obtain a where a: "a \<le> 30" "length ?t = 2 ^ a"
    using map_inv_capacity [OF assms] by blast
  have L30: "length ?t \<le> 2 ^ 30" unfolding a(2) using a(1) by (intro power_increasing) simp_all
  from forEachStripe_run [OF L30 N0 N30 wN, of 0 action u]
  obtain s' where s': "forEachStripe (lock TableLock ReadLock s) ?t action 0 u =
       Some (s', fold (\<lambda>\<sigma>'. fold (\<lambda>x. visitChain action (?t ! x)) (stripeIndices ?N (length ?t) \<sigma>'))
               [0..<?N] u, Inr ())"
    "table s' = table s" "size_field s' = size_field s" "numStripes s' = numStripes s"
    "loadFactor s' = loadFactor s"
    by auto
  have "fold (\<lambda>\<sigma>'. fold (\<lambda>x. visitChain action (?t ! x)) (stripeIndices ?N (length ?t) \<sigma>'))
               [0..<?N] u
      = visitChain action (concat (map (\<lambda>i. ?t ! i) (visitOrder ?N (length ?t)))) u"
    unfolding visitOrder_def fold_visitChain [symmetric] fold_fold_concat ..
  then show ?thesis
    using s' by (simp add: forEach_def Let_def)
qed

lemma forEach_null: "forEach s None u = Some (s, u, Inl NullPointerException)"
  by (simp add: forEach_def)

subsection \<open>Reachable states and sequences of puts\<close>

lemma put_inv_any: "map_inv hc s \<Longrightarrow> map_inv hc (fst (put hc s key_arg v))"
  by (cases key_arg) (simp_all add: null_key put_inv)

lemma get_inv_any: "map_inv hc s \<Longrightarrow> map_inv hc (fst (get hc s key_arg))"
  using get_fields [of hc s key_arg] by (subst map_inv_fields [of _ s]) simp_all

lemma remove_inv_any: "map_inv hc s \<Longrightarrow> map_inv hc (fst (remove hc s key_arg))"
  by (cases key_arg) (simp_all add: null_key remove_inv)

lemma containsKey_inv_any: "map_inv hc s \<Longrightarrow> map_inv hc (fst (containsKey hc s key_arg))"
  using containsKey_fields [of hc s key_arg] by (subst map_inv_fields [of _ s]) simp_all

lemma putIfAbsent_inv_any: "map_inv hc s \<Longrightarrow> map_inv hc (fst (putIfAbsent hc s key_arg v))"
  by (cases key_arg) (simp_all add: null_key putIfAbsent_inv)

lemma replace_inv_any: "map_inv hc s \<Longrightarrow> map_inv hc (fst (replace hc s key_arg old new))"
  by (cases key_arg) (simp_all add: null_key replace_inv)

lemma computeIfAbsent_inv_any:
  "map_inv hc s \<Longrightarrow> map_inv hc (fst (computeIfAbsent hc s key_arg g u))"
  by (cases key_arg; cases g)
     (simp_all add: null_key computeIfAbsent_null_function computeIfAbsent_inv)

lemma forEach_inv_any:
  assumes "map_inv hc s" "forEach s a u = Some (s', u', r)"
  shows "map_inv hc s'"
proof (cases a)
  case None
  then show ?thesis using assms by (simp add: forEach_null)
next
  case (Some action)
  then show ?thesis
    using forEach_run [OF assms(1), of action u] assms
    by (subst map_inv_fields [of _ s]) auto
qed

lemma resizeIfNeeded_inv:
  assumes "map_inv hc s"
  shows "map_inv hc (fst (resizeIfNeeded s))"
proof -
  obtain j where j: "j \<le> 30" "length (table s) = 2 ^ j"
    using map_inv_capacity [OF assms] by blast
  show ?thesis
    using resizeIfNeeded_grow_eq(1) [OF j] grow_inv [OF assms]
    by (subst map_inv_fields [of _ "grow s"]) simp_all
qed

lemma reachable_inv: "reachable hc s \<Longrightarrow> map_inv hc s"
proof (induction rule: reachable.induct)
  case (r_new ic lf ns s)
  then show ?case by (rule construct_inv(1))
next
  case (r_forEach s a s' u' r)
  show ?case using r_forEach(3,2) by (rule forEach_inv_any)
qed (simp_all add: put_inv_any get_inv_any remove_inv_any containsKey_inv_any clear_inv
       putIfAbsent_inv_any replace_inv_any computeIfAbsent_inv_any)

lemma sint_of_nat_le: "sint (word_of_nat n :: 32 word) \<le> int n"
proof -
  let ?w = "word_of_nat n :: 32 word"
  have u: "uint ?w \<le> int n"
    by (simp add: uint_nat unat_of_nat)
  show ?thesis
  proof (cases "uint ?w < 2 ^ 31")
    case True
    then show ?thesis using u by (simp add: sint_small)
  next
    case False
    have "sint ?w < 2 ^ 31" using sint_lt [of ?w] by simp
    then show ?thesis using False u by linarith
  qed
qed

lemma putAll_inv: "map_inv hc s \<Longrightarrow> map_inv hc (putAll hc s kvs)"
  by (induction kvs arbitrary: s) (auto simp: put_inv)

lemma putAll_lookup:
  "map_inv hc s \<Longrightarrow>
     lookup hc (putAll hc s kvs) k =
       (case map_of (rev kvs) k of
          None \<Rightarrow> lookup hc s k
        | Some v \<Rightarrow> Some \<lparr>hash = spread (hc k), key = k, val = v\<rparr>)"
proof (induction kvs arbitrary: s)
  case Nil
  then show ?case by simp
next
  case (Cons kv kvs)
  obtain k0 v0 where kv: "kv = (k0, v0)" by (cases kv)
  let ?s1 = "fst (put hc s (Some k0) v0)"
  have inv1: "map_inv hc ?s1" using Cons.prems by (rule put_inv)
  show ?case
    using Cons.IH [OF inv1] put_lookup [OF Cons.prems, of k0 v0 k]
    by (auto simp: kv map_add_def split: option.splits)
qed

lemma putAll_keys:
  assumes "map_inv hc s"
  shows "{k. lookup hc (putAll hc s kvs) k \<noteq> None} = {k. lookup hc s k \<noteq> None} \<union> fst ` set kvs"
proof -
  have m: "map_of (rev kvs) k \<noteq> None \<longleftrightarrow> k \<in> fst ` set kvs" for k
    by (simp add: map_of_eq_None_iff)
  have "lookup hc (putAll hc s kvs) k \<noteq> None \<longleftrightarrow>
      lookup hc s k \<noteq> None \<or> k \<in> fst ` set kvs" for k
    using m [of k] unfolding putAll_lookup [OF assms]
    by (cases "map_of (rev kvs) k") simp_all
  then show ?thesis by blast
qed

lemma putAll_size:
  assumes "map_inv hc s" "entries s = []"
  shows "size_field (putAll hc s kvs) = word_of_nat (card (fst ` set kvs))"
proof -
  have "{k. lookup hc s k \<noteq> None} = {}"
    using lookup_empty [OF assms] by simp
  then have "length (entries (putAll hc s kvs)) = card (fst ` set kvs)"
    using length_entries [OF putAll_inv [OF assms(1)], of kvs] putAll_keys [OF assms(1), of kvs]
    by simp
  then show ?thesis
    using map_inv_size [OF putAll_inv [OF assms(1)], of kvs] by simp
qed

lemma putAll_get:
  assumes "map_inv hc s" "distinct (map fst kvs)" "(k, v) \<in> set kvs"
  shows "snd (get hc (putAll hc s kvs) (Some k)) = Inr v"
proof -
  have "map_of (rev kvs) k = Some v"
    using assms(2,3) by (intro map_of_is_SomeI) (simp_all add: rev_map [symmetric])
  then show ?thesis
    using get_result [OF putAll_inv [OF assms(1)], of kvs k] putAll_lookup [OF assms(1), of kvs k]
    by simp
qed

subsection \<open>The map at the largest capacity\<close>

lemma maxMap_threshold: "float_to_int (float_mul (int_to_float 1073741824) (Finite 1 (- 40))) = 0"
  by code_simp

lemma roundUp_max: "roundUpToPowerOfTwo 1073741824 = 1073741824"
proof -
  have s: "sint (1073741824 :: 32 word) = 2 ^ 30" by simp
  obtain j where j: "j \<in> {1..30}" "roundUpToPowerOfTwo 1073741824 = (2 ^ j :: 32 word)"
    "sint (1073741824 :: 32 word) \<le> 2 ^ j"
    using roundUp_small [of 1073741824] unfolding s by auto
  have "(2::int) ^ 30 \<le> 2 ^ j" using j(3) unfolding s .
  then have "30 \<le> j" by (simp only: power_increasing_iff)
  then have "j = 30" using j(1) by simp
  then show ?thesis using j(2) by simp
qed


lemma maxMap_inv: "map_inv hc maxMap"
proof -
  have "\<exists>j \<in> {1..30}. (2::nat) ^ 30 = 2 ^ j" by (rule bexI [of _ 30]) simp_all
  moreover have "\<exists>j \<in> {0..30}. (16 :: 32 word) = 2 ^ j" by (rule bexI [of _ 4]) simp_all
  ultimately show ?thesis unfolding maxMap_def by (rule empty_table_inv)
qed

lemma maxMap_fields:
  "length (table maxMap) = 2 ^ 30" "entries maxMap = []" "size_field maxMap = 0"
  "loadFactor maxMap = Finite 1 (- 40)" "arrayLength (table maxMap) = 1073741824"
  by (simp_all add: maxMap_def entries_def arrayLength_def)


lemma maxMap_new: "newStripedHashMap 1073741824 (Finite 1 (- 40)) 16 = Inr maxMap"
  by (simp add: newStripedHashMap_def roundUp_max highestOneBit_16 float_le_zero_def isNaN_def maxMap_def)

lemma maxMap_needsResize: "needsResize maxMap (arrayLength (table maxMap)) (size_field maxMap + 1)"
  by (simp add: needsResize_def maxMap_fields maxMap_threshold)

lemma maxMap_put:
  "snd (put intHash maxMap (Some 1) (Some 1)) = Inl IllegalMonitorStateException"
  using put_absent(5) [OF maxMap_inv lookup_empty [OF maxMap_inv maxMap_fields(2)],
          of intHash 1 "Some 1"]
        maxMap_needsResize
  by (simp add: maxMap_fields)

subsection \<open>Entries across resize and computeIfAbsent\<close>

lemma computeIfAbsent_lookup_absent:
  assumes "map_inv hc s" "lookup hc s k = None"
  shows "lookup hc (fst (computeIfAbsent hc s (Some k) (Some f) u)) k' =
          (if k' = k then Some \<lparr>hash = spread (hc k), key = k, val = fst (f k u)\<rparr>
           else lookup hc s k')"
proof -
  let ?v = "fst (f k u)"
  have "lookup hc (fst (computeIfAbsent hc s (Some k) (Some f) u)) k'
      = lookup hc (grow (insertNode hc s k ?v)) k'"
    using computeIfAbsent_absent(1) [OF assms, of f u] by (rule lookup_table_cong)
  also have "\<dots> = lookup hc (insertNode hc s k ?v) k'"
    using insertNode_inv [OF assms] by (rule grow_lookup)
  finally show ?thesis by (simp add: insertNode_lookup [OF assms(1)])
qed

lemma computeIfAbsent_entries_absent:
  assumes "map_inv hc s" "lookup hc s k = None"
  shows "mset (entries (fst (computeIfAbsent hc s (Some k) (Some f) u))) =
           add_mset \<lparr>hash = spread (hc k), key = k, val = fst (f k u)\<rparr> (mset (entries s))"
proof -
  let ?v = "fst (f k u)"
  have "entries (fst (computeIfAbsent hc s (Some k) (Some f) u))
      = entries (grow (insertNode hc s k ?v))"
    using computeIfAbsent_absent(1) [OF assms, of f u] by (rule entries_table_cong)
  then show ?thesis
    using grow_entries [OF insertNode_inv [OF assms], of ?v] insertNode_entries [OF assms(1), of k ?v]
    by simp
qed

lemma absent_iff: 
  assumes "map_inv hc s"
  shows "lookup hc s k = None \<longleftrightarrow> k \<notin> key ` set (entries s)"
  using entries_keys [OF assms] by auto

lemma resizeIfNeeded_get:
  assumes "map_inv hc s"
  shows "snd (get hc (fst (resizeIfNeeded s)) (Some k)) = snd (get hc s (Some k))"
proof -
  obtain j where j: "j \<le> 30" "length (table s) = 2 ^ j"
    using map_inv_capacity [OF assms] by blast
  have "lookup hc (fst (resizeIfNeeded s)) k = lookup hc (grow s) k"
    using resizeIfNeeded_grow_eq(1) [OF j] by (rule lookup_table_cong)
  then have "lookup hc (fst (resizeIfNeeded s)) k = lookup hc s k"
    using grow_lookup [OF assms] by simp
  then show ?thesis
    using get_result [OF resizeIfNeeded_inv [OF assms], of k] get_result [OF assms, of k]
    by simp
qed

lemma resizeIfNeeded_entries:
  assumes "map_inv hc s"
  shows "mset (entries (fst (resizeIfNeeded s))) = mset (entries s)"
proof -
  obtain j where j: "j \<le> 30" "length (table s) = 2 ^ j"
    using map_inv_capacity [OF assms] by blast
  have "entries (fst (resizeIfNeeded s)) = entries (grow s)"
    using resizeIfNeeded_grow_eq(1) [OF j] by (rule entries_table_cong)
  then show ?thesis using grow_entries [OF assms] by simp
qed

lemma resizeIfNeeded_doubles:
  assumes "map_inv hc s" "needsResize s (arrayLength (table s)) (size_field s)"
    "snd (resizeIfNeeded s) = Inr ()"
  shows "length (table (fst (resizeIfNeeded s))) = 2 * length (table s)"
    and "length (table s) < 2 ^ 30"
proof -
  obtain j where j: "j \<le> 30" "length (table s) = 2 ^ j"
    using map_inv_capacity [OF assms(1)] by blast
  have ne: "length (table s) \<noteq> 2 ^ 30"
    using resizeIfNeeded_grow_eq(2) [OF j] assms(2,3) by auto
  have "(2::nat) ^ j \<le> 2 ^ 30" using j(1) by (intro power_increasing) simp_all
  then show lt: "length (table s) < 2 ^ 30" using ne j(2) by simp
  show "length (table (fst (resizeIfNeeded s))) = 2 * length (table s)"
    using resizeIfNeeded_grow_eq(1) [OF j] assms(2) lt by (simp add: grow_def)
qed

lemma get_entry:
  assumes "map_inv hc s" "n \<in> set (entries s)"
  shows "snd (get hc s (Some (key n))) = Inr (val n)"
proof -
  have "lookup hc s (key n) = Some n"
    using lookup_entries [OF assms(1), of "key n" n] assms(2) by simp
  then show ?thesis using get_result [OF assms(1), of "key n"] by simp
qed

lemma get_absent:
  assumes "map_inv hc s" "k \<notin> key ` set (entries s)"
  shows "snd (get hc s (Some k)) = Inr None"
  using get_result [OF assms(1), of k] absent_iff [OF assms(1), of k] assms(2) by simp

subsection \<open>The constructor on arguments above the largest capacity\<close>

lemma constructor_overflow:
  "(newStripedHashMap 1073741825 (Finite 3 (- 2)) 16 :: exn + (jint, jint) StripedHashMap) =
     Inr \<lparr>table = replicate 2 [], numStripes = 16, loadFactor = Finite 3 (- 2),
          size_field = 0, lockLog = []\<rparr>"
proof -
  have "roundUpToPowerOfTwo 1073741825 = 2" by (rule roundUp_large) simp
  then show ?thesis
    by (simp add: newStripedHashMap_def highestOneBit_16 float_le_zero_def isNaN_def)
qed

subsection \<open>Growth on the way to thirteen keys\<close>

lemma twelve_keys_do_not_grow:
  "length (table (putAll intHash defaultMap
      [(1, Some 101), (2, Some 102), (3, Some 103), (4, Some 104), (5, Some 105),
       (6, Some 106), (7, Some 107), (8, Some 108), (9, Some 109), (10, Some 110),
       (11, Some 111), (12, Some 112)])) = 16"
  by code_simp

lemma thirteen_keys_grow_once:
  "length (table (putAll intHash defaultMap
      [(1, Some 101), (2, Some 102), (3, Some 103), (4, Some 104), (5, Some 105),
       (6, Some 106), (7, Some 107), (8, Some 108), (9, Some 109), (10, Some 110),
       (11, Some 111), (12, Some 112), (13, Some 113)])) = 32"
  "size_method (putAll intHash defaultMap
      [(1, Some 101), (2, Some 102), (3, Some 103), (4, Some 104), (5, Some 105),
       (6, Some 106), (7, Some 107), (8, Some 108), (9, Some 109), (10, Some 110),
       (11, Some 111), (12, Some 112), (13, Some 113)]) = 13"
  "map (\<lambda>k. snd (get intHash (putAll intHash defaultMap
      [(1, Some 101), (2, Some 102), (3, Some 103), (4, Some 104), (5, Some 105),
       (6, Some 106), (7, Some 107), (8, Some 108), (9, Some 109), (10, Some 110),
       (11, Some 111), (12, Some 112), (13, Some 113)]) (Some k)))
     [1, 2, 3, 4, 5, 6, 7, 8, 9, 10, 11, 12, 13]
   = map (\<lambda>v. Inr (Some v)) [101, 102, 103, 104, 105, 106, 107, 108, 109, 110, 111, 112, 113]"
  by code_simp+

lemma put_grows_below_largest_capacity:
  assumes "map_inv hc s" "lookup hc s k = None" "length (table s) < 2 ^ 30"
  shows "length (table (fst (put hc s (Some k) v))) =
           (if needsResize s (arrayLength (table s)) (size_field s + 1)
            then 2 * length (table s) else length (table s))"
    and "snd (put hc s (Some k) v) = Inr None"
proof -
  have "length (table (grow (insertNode hc s k v))) =
           (if needsResize s (arrayLength (table s)) (size_field s + 1)
            then 2 * length (table s) else length (table s))"
    using assms(3) by (simp add: grow_def rehash_def needsResize_def arrayLength_def)
  then show "length (table (fst (put hc s (Some k) v))) =
           (if needsResize s (arrayLength (table s)) (size_field s + 1)
            then 2 * length (table s) else length (table s))"
    using put_absent(1) [OF assms(1,2), of v] by simp
  show "snd (put hc s (Some k) v) = Inr None"
    using put_absent(5) [OF assms(1,2), of v] assms(3) by simp
qed

subsection \<open>The growth threshold and the exact product\<close>

lemma int_div_less_iff: "0 < b \<Longrightarrow> (a div b < c) = (a < c * (b::int))"
proof -
  assume b: "0 < b"
  then have b0: "b \<noteq> 0" by simp
  have "(a + (- c) * b) div b = - c + a div b" using b0 by (rule div_mult_self1)
  then have "(a - c * b) div b = a div b - c" by simp
  then have "(a div b - c < 0) = (a - c * b < 0)"
    using pos_imp_zdiv_neg_iff [OF b, of "a - c * b"] by simp
  then show ?thesis by simp
qed

lemma exceeds_shift:
  "exceedsProduct n 1 (Finite q (E + int d)) = exceedsProduct n 1 (Finite (q * 2 ^ d) E)"
proof -
  consider "0 \<le> E" | "E < 0" "0 \<le> E + int d" | "E < 0" "E + int d < 0" by linarith
  then show ?thesis
  proof cases
    case 1
    then have "nat (E + int d) = nat E + d" by simp
    then show ?thesis using 1 by (simp add: exceedsProduct_def power_add ac_simps)
  next
    case 2
    then have d: "d = nat (E + int d) + nat (- E)" by simp
    have "(q * 2 ^ nat (E + int d) < n) = (q * 2 ^ nat (E + int d) * 2 ^ nat (- E) < n * 2 ^ nat (- E))"
      by simp
    also have "q * 2 ^ nat (E + int d) * 2 ^ nat (- E) = q * 2 ^ d"
      by (subst d) (simp add: power_add mult.assoc)
    finally show ?thesis using 2 by (simp add: exceedsProduct_def)
  next
    case 3
    then have d: "nat (- E) = nat (- (E + int d)) + d" by simp
    have "(q < n * 2 ^ nat (- (E + int d))) = (q * 2 ^ d < n * 2 ^ nat (- (E + int d)) * 2 ^ d)"
      by simp
    also have "n * 2 ^ nat (- (E + int d)) * 2 ^ d = n * 2 ^ nat (- E)"
      by (subst d) (simp add: power_add mult.assoc)
    finally show ?thesis using 3 by (simp add: exceedsProduct_def)
  qed
qed

lemma float_to_int_less:
  assumes "0 \<le> q"
  shows "sint (float_to_int (Finite q e)) < sint (n :: 32 word)
           \<longleftrightarrow> exceedsProduct (sint n) 1 (Finite q e)"
proof -
  define t where "t = (if 0 \<le> e then q * 2 ^ nat e else sgn q * (\<bar>q\<bar> div 2 ^ nat (- e)))"
  have t': "t = (if 0 \<le> e then q * 2 ^ nat e else q div 2 ^ nat (- e))"
    using assms by (cases "q = 0") (simp_all add: t_def)
  have t0: "0 \<le> t" using assms by (simp add: t' pos_imp_zdiv_nonneg_iff)
  have ex: "exceedsProduct (sint n) 1 (Finite q e) \<longleftrightarrow> t < sint n"
  proof (cases "0 \<le> e")
    case True
    then show ?thesis by (simp add: exceedsProduct_def t')
  next
    case False
    have "(q div 2 ^ nat (- e) < sint n) = (q < sint n * 2 ^ nat (- e))"
      by (rule int_div_less_iff) simp
    then show ?thesis using False by (simp add: exceedsProduct_def t')
  qed
  have n: "sint n \<le> 2147483647" using sint_lt [of n] by simp
  show ?thesis
  proof (cases "2147483647 < t")
    case True
    then have "float_to_int (Finite q e) = MAX_VALUE"
      using t0 by (simp add: float_to_int_def t_def [symmetric] Let_def)
    then show ?thesis using True n ex by (simp add: MAX_VALUE_def)
  next
    case False
    then have "float_to_int (Finite q e) = word_of_int t"
      using t0 by (simp add: float_to_int_def t_def [symmetric] Let_def)
    moreover have "uint (word_of_int t :: 32 word) = t"
      using t0 False by (simp add: uint_word_of_int_eq take_bit_int_eq_self)
    then have "sint (word_of_int t :: 32 word) = t"
      using False by (simp add: sint_small)
    ultimately show ?thesis using ex by simp
  qed
qed

text \<open>
  Rounding to binary32 leaves a value alone whose significand has at most 24 bits after
  its trailing zeros are dropped and whose exponent is not below the least one.
\<close>

lemma roundFloat_exact:
  assumes "0 < m" "m < 2 ^ 24" "0 \<le> E + 149"
  shows "\<exists>d \<le> a. bitlen (m * 2 ^ (a - d)) \<le> 24 \<and>
           roundFloat (m * 2 ^ a) E =
             (if 128 < bitlen (m * 2 ^ (a - d)) + (E + int d) then PosInfinity
              else Finite (m * 2 ^ (a - d)) (E + int d))"
proof -
  define A where "A = m * 2 ^ a"
  have A: "0 < A" using assms(1) by (simp add: A_def)
  have bl: "bitlen A = bitlen m + int a" using assms(1) by (simp add: A_def)
  have bm: "bitlen m \<le> 24" using assms(2) by (simp add: bitlen_le_iff_power)
  define s where "s = max (bitlen A - 24) (- 149 - E)"
  have sa: "s \<le> int a" using bm assms(3) by (simp add: s_def bl)
  have sg: "sgn A = 1" "(A < 0) = False" "\<bar>A\<bar> = A" using A by simp_all
  have rf: "roundFloat A E =
     (if 128 < bitlen (if s \<le> 0 then A
                       else if 2 ^ nat (s - 1) < A mod 2 ^ nat s \<or>
                               (A mod 2 ^ nat s = 2 ^ nat (s - 1) \<and> odd (A div 2 ^ nat s))
                            then A div 2 ^ nat s + 1 else A div 2 ^ nat s)
                + (if s \<le> 0 then E else E + s)
      then PosInfinity
      else Finite (if s \<le> 0 then A
                   else if 2 ^ nat (s - 1) < A mod 2 ^ nat s \<or>
                           (A mod 2 ^ nat s = 2 ^ nat (s - 1) \<and> odd (A div 2 ^ nat s))
                        then A div 2 ^ nat s + 1 else A div 2 ^ nat s)
                  (if s \<le> 0 then E else E + s))"
    unfolding roundFloat_def s_def by (simp only: Let_def sg if_False mult_1)
  show ?thesis
  proof (cases "s \<le> 0")
    case True
    then have "bitlen A \<le> 24" by (simp add: s_def)
    moreover have "roundFloat A E = (if 128 < bitlen A + (E + int 0) then PosInfinity else Finite A (E + int 0))"
      unfolding rf using True by simp
    ultimately have "bitlen A \<le> 24 \<and>
       roundFloat A E = (if 128 < bitlen A + (E + int 0) then PosInfinity else Finite A (E + int 0))"
      by simp
    then show ?thesis unfolding A_def by (intro exI [of _ 0]) (simp del: bitlen_pow2)
  next
    case False
    define d where "d = nat s"
    then have d: "0 < d" "d \<le> a" "s = int d" using False sa by simp_all
    define q where "q = m * 2 ^ (a - d)"
    have qd: "q * 2 ^ d = A" using d(2) by (simp add: q_def A_def mult.assoc power_add [symmetric])
    have q0: "0 < q" using assms(1) by (simp add: q_def)
    have dv: "A div 2 ^ d = q" "A mod 2 ^ d = 0" using qd [symmetric] by simp_all
    have "bitlen A - 24 \<le> s" by (simp add: s_def)
    moreover have "bitlen A = bitlen q + int d" using q0 qd [symmetric] by simp
    ultimately have bq: "bitlen q \<le> 24" using d(3) by simp
    have "roundFloat A E = (if 128 < bitlen q + (E + int d) then PosInfinity else Finite q (E + int d))"
      unfolding rf using False by (simp add: d(3) dv)
    then show ?thesis using bq d(2) unfolding A_def q_def by blast
  qed
qed

lemma int_to_float_pow2:
  assumes "j \<le> 30"
  shows "\<exists>d \<le> j. int_to_float (2 ^ j) = Finite (2 ^ (j - d)) (int d)"
proof -
  obtain d where d: "d \<le> j" "bitlen ((1::int) * 2 ^ (j - d)) \<le> 24"
    "roundFloat (1 * 2 ^ j) 0 =
       (if 128 < bitlen ((1::int) * 2 ^ (j - d)) + (0 + int d) then PosInfinity
        else Finite (1 * 2 ^ (j - d)) (0 + int d))"
    using roundFloat_exact [of 1 0 j] by auto
  have "bitlen ((1::int) * 2 ^ (j - d)) = 1 + int (j - d)"
    by (subst bitlen_pow2) (simp_all add: bitlen_alt_def)
  then have "\<not> 128 < bitlen ((1::int) * 2 ^ (j - d)) + (0 + int d)"
    using d(1) assms by simp
  then have "roundFloat (2 ^ j) 0 = Finite (2 ^ (j - d)) (int d)"
    using d(3) by simp
  then show ?thesis using d(1) sint_pow2 [OF assms] by (auto simp: int_to_float_def)
qed

lemma needsResize_exact:
  fixes s :: "('k, 'v) StripedHashMap"
  assumes "j \<le> 30" "length (table s) = 2 ^ j" "loadFactor s = Finite m e"
    "0 < m" "m < 2 ^ 24" "- 149 \<le> e"
  shows "needsResize s (arrayLength (table s)) n
           = exceedsProduct (sint n) (length (table s)) (loadFactor s)"
proof -
  obtain d where d: "d \<le> j" "int_to_float (2 ^ j) = Finite (2 ^ (j - d)) (int d)"
    using int_to_float_pow2 [OF assms(1)] by blast
  have al: "arrayLength (table s) = 2 ^ j" by (simp add: arrayLength_def assms(2))
  have "0 \<le> (int d + e) + 149" using assms(6) by simp
  then obtain d' where d': "d' \<le> j - d" "bitlen (m * 2 ^ (j - d - d')) \<le> 24"
    "roundFloat (m * 2 ^ (j - d)) (int d + e) =
       (if 128 < bitlen (m * 2 ^ (j - d - d')) + (int d + e + int d') then PosInfinity
        else Finite (m * 2 ^ (j - d - d')) (int d + e + int d'))"
    using roundFloat_exact [OF assms(4,5), of "int d + e" "j - d"] by blast
  define D where "D = d + d'"
  define q where "q = m * 2 ^ (j - D)"
  have D: "D \<le> j" using d(1) d'(1) by (simp add: D_def)
  have q0: "0 < q" using assms(4) by (simp add: q_def)
  have qD: "q * 2 ^ D = m * 2 ^ j"
    using D by (simp add: q_def mult.assoc power_add [symmetric])
  have bq: "bitlen q \<le> 24" using d'(2) by (simp add: q_def D_def del: bitlen_pow2)
  have prod: "float_mul (int_to_float (arrayLength (table s))) (loadFactor s) =
      (if 128 < bitlen q + (e + int D) then PosInfinity else Finite q (e + int D))"
    using d'(3)
    by (simp add: al d(2) assms(3) float_mul_def q_def D_def mult.commute add.commute
          add.left_commute del: bitlen_pow2)
  have ex: "exceedsProduct (sint n) (length (table s)) (loadFactor s)
      = exceedsProduct (sint n) 1 (Finite q (e + int D))"
    unfolding exceeds_shift qD by (simp add: exceedsProduct_def assms(2,3) mult.commute)
  show ?thesis
  proof (cases "128 < bitlen q + (e + int D)")
    case False
    then show ?thesis
      using float_to_int_less [of q "e + int D" n] q0
      by (simp add: needsResize_def prod ex)
  next
    case True
    then have e0: "105 \<le> e + int D" using bq by simp
    then have "nat (e + int D) \<ge> 31" by simp
    then have "(2::int) ^ 31 \<le> 2 ^ nat (e + int D)" by (intro power_increasing) simp_all
    moreover have "(2::int) ^ nat (e + int D) \<le> q * 2 ^ nat (e + int D)" using q0 by simp
    moreover have "sint n < 2 ^ 31" using sint_lt [of n] by simp
    ultimately have "\<not> q * 2 ^ nat (e + int D) < sint n" by linarith
    then have "\<not> exceedsProduct (sint n) 1 (Finite q (e + int D))"
      using e0 by (simp add: exceedsProduct_def)
    moreover have "\<not> sint MAX_VALUE < sint n"
      using sint_lt [of n] by (simp add: MAX_VALUE_def)
    ultimately show ?thesis
      using True by (simp add: needsResize_def prod ex float_to_int_def)
  qed
qed

text \<open>
  For every load factor the constructor accepts, the test of \<open>needsResize\<close> is the
  comparison of the size with the exact product of capacity and load factor.
\<close>

lemma needsResize_iff_exceeds:
  fixes s :: "('k, 'v) StripedHashMap"
  assumes "map_inv hc s" "isBinary32 (loadFactor s)" "\<not> float_le_zero (loadFactor s)"
    "\<not> isNaN (loadFactor s)"
  shows "needsResize s (arrayLength (table s)) n
           = exceedsProduct (sint n) (length (table s)) (loadFactor s)"
proof -
  obtain j where j: "j \<le> 30" "length (table s) = 2 ^ j"
    using map_inv_capacity [OF assms(1)] by blast
  show ?thesis
  proof (cases "loadFactor s")
    case NaN
    then show ?thesis using assms(4) by (simp add: isNaN_def)
  next
    case NegInfinity
    then show ?thesis using assms(3) by (simp add: float_le_zero_def)
  next
    case PosInfinity
    obtain d where d: "int_to_float (2 ^ j) = Finite (2 ^ (j - d)) (int d)"
      using int_to_float_pow2 [OF j(1)] by blast
    have "\<not> sint MAX_VALUE < sint n"
      using sint_lt [of n] by (simp add: MAX_VALUE_def)
    then show ?thesis
      using PosInfinity d
      by (simp add: needsResize_def arrayLength_def j(2) float_mul_def float_to_int_def
            exceedsProduct_def)
  next
    case (Finite m e)
    then have "0 < m" "m < 2 ^ 24" "- 149 \<le> e"
      using assms(2,3) by (simp_all add: isBinary32_def float_le_zero_def)
    then show ?thesis using j Finite by (intro needsResize_exact)
  qed
qed

section \<open>The claims\<close>

text \<open>
  C3.  For every key that is not \<open>null\<close> and every value, \<open>null\<close> included, \<open>put(k, v)\<close>
  followed by \<open>get(k)\<close> on the resulting map returns \<open>v\<close>.  The map is any map in a
  state that satisfies the invariant; the statement also covers a \<open>put\<close> that grows the
  table.
\<close>

theorem put_then_get_returns_value:
  assumes "map_inv hc s"
  shows "snd (get hc (fst (put hc s (Some k) v)) (Some k)) = Inr v"
  using assms by (rule put_get)

theorem put_then_get_returns_value_witness:
  "map_inv intHash defaultMap \<and>
   snd (get intHash (fst (put intHash defaultMap (Some 5) (Some 7))) (Some 5)) = Inr (Some 7) \<and>
   snd (get intHash (fst (put intHash defaultMap (Some 5) None)) (Some 5)) = Inr None"
  using put_then_get_returns_value [OF defaultMap_inv, of intHash 5 "Some 7"]
    put_then_get_returns_value [OF defaultMap_inv, of intHash 5 None] defaultMap_inv
  by simp

text \<open>
  C6 (amended).  The constructor throws \<open>IllegalArgumentException\<close>, and produces no
  object, exactly when \<open>initialCapacity \<le> 0\<close>, or \<open>numStripes \<le> 0\<close>, or \<open>loadFactor\<close> is
  \<open>NaN\<close> or at most zero; a positive infinite \<open>loadFactor\<close> is accepted.  Otherwise it
  yields a map with no entries, size \<open>0\<close>, the given load factor and no lock taken, which
  satisfies the invariant and in which every \<open>get\<close> returns \<open>null\<close>.
\<close>

theorem constructor_rejects_exactly_invalid_arguments:
  fixes hc :: "'k \<Rightarrow> jint"
  shows
    "(sint ic \<le> 0 \<or> sint ns \<le> 0 \<or> float_le_zero lf \<or> isNaN lf \<longrightarrow>
        (newStripedHashMap ic lf ns :: exn + ('k, 'v) StripedHashMap) = Inl IllegalArgumentException) \<and>
     (0 < sint ic \<and> 0 < sint ns \<and> \<not> float_le_zero lf \<and> \<not> isNaN lf \<longrightarrow>
        (\<exists>s :: ('k, 'v) StripedHashMap.
           newStripedHashMap ic lf ns = Inr s \<and> entries s = [] \<and> size_method s = 0 \<and>
           loadFactor s = lf \<and> lockLog s = [] \<and> map_inv hc s \<and>
           (\<forall>k. snd (get hc s (Some k)) = Inr None))) \<and>
     ((float_le_zero lf \<or> isNaN lf) =
        (case lf of NaN \<Rightarrow> True | NegInfinity \<Rightarrow> True | PosInfinity \<Rightarrow> False
         | Finite m e \<Rightarrow> m \<le> 0))"
proof (intro conjI impI)
  assume "sint ic \<le> 0 \<or> sint ns \<le> 0 \<or> float_le_zero lf \<or> isNaN lf"
  then show "(newStripedHashMap ic lf ns :: exn + ('k, 'v) StripedHashMap)
      = Inl IllegalArgumentException"
    by (auto simp: newStripedHashMap_def)
next
  assume ok: "0 < sint ic \<and> 0 < sint ns \<and> \<not> float_le_zero lf \<and> \<not> isNaN lf"
  then obtain s :: "('k, 'v) StripedHashMap" where s: "newStripedHashMap ic lf ns = Inr s"
    using construct_ok [of ic ns lf] by blast
  note c = construct_inv(1) [OF s, of hc] construct_inv(2-5) [OF s]
  have "snd (get hc s (Some k)) = Inr None" for k
    using get_result [OF c(1), of k] lookup_empty [OF c(1,2), of k] by simp
  then show "\<exists>s :: ('k, 'v) StripedHashMap.
           newStripedHashMap ic lf ns = Inr s \<and> entries s = [] \<and> size_method s = 0 \<and>
           loadFactor s = lf \<and> lockLog s = [] \<and> map_inv hc s \<and>
           (\<forall>k. snd (get hc s (Some k)) = Inr None)"
    using s c by (auto simp: size_method_def)
next
  show "(float_le_zero lf \<or> isNaN lf) =
        (case lf of NaN \<Rightarrow> True | NegInfinity \<Rightarrow> True | PosInfinity \<Rightarrow> False
         | Finite m e \<Rightarrow> m \<le> 0)"
    by (cases lf) (simp_all add: float_le_zero_def isNaN_def)
qed

theorem constructor_rejects_exactly_invalid_arguments_witness:
  "(newStripedHashMap 0 (Finite 3 (- 2)) 16 :: exn + (jint, jint) StripedHashMap)
      = Inl IllegalArgumentException \<and>
   (newStripedHashMap 16 NaN 16 :: exn + (jint, jint) StripedHashMap)
      = Inl IllegalArgumentException \<and>
   (\<exists>s :: (jint, jint) StripedHashMap.
       newStripedHashMap 16 (Finite 3 (- 2)) 16 = Inr s \<and> entries s = [] \<and> size_method s = 0 \<and>
       loadFactor s = Finite 3 (- 2) \<and> lockLog s = [] \<and> map_inv intHash s \<and>
       (\<forall>k. snd (get intHash s (Some k)) = Inr None))"
  using constructor_rejects_exactly_invalid_arguments
          [where ic = 0 and ns = 16 and lf = "Finite 3 (- 2)" and hc = intHash
             and 'v = jint]
        constructor_rejects_exactly_invalid_arguments
          [where ic = 16 and ns = 16 and lf = NaN and hc = intHash and 'v = jint]
        constructor_rejects_exactly_invalid_arguments
          [where ic = 16 and ns = 16 and lf = "Finite 3 (- 2)" and hc = intHash
             and 'v = jint]
  by (simp add: float_le_zero_def isNaN_def)

theorem constructor_accepts_infinite_loadFactor:
  "(newStripedHashMap 16 PosInfinity 16 :: exn + (jint, jint) StripedHashMap) =
     Inr \<lparr>table = replicate 16 [], numStripes = 16, loadFactor = PosInfinity,
          size_field = 0, lockLog = []\<rparr>"
  by code_simp

text \<open>
  C5.  Every keyed operation called with a \<open>null\<close> key throws \<open>NullPointerException\<close>
  and returns the map as it was: the same entries, the same size and the same lock log,
  so no lock was taken; the result is the same for every state, so none was read; the
  generator of \<open>computeIfAbsent\<close> does not run.
\<close>

theorem null_key_raises_and_changes_nothing:
  "put hc s None v = (s, Inl NullPointerException) \<and>
   get hc s None = (s, Inl NullPointerException) \<and>
   remove hc s None = (s, Inl NullPointerException) \<and>
   containsKey hc s None = (s, Inl NullPointerException) \<and>
   putIfAbsent hc s None v = (s, Inl NullPointerException) \<and>
   replace hc s None old new = (s, Inl NullPointerException) \<and>
   computeIfAbsent hc s None g u = (s, u, Inl NullPointerException)"
  by (simp add: null_key)

theorem null_key_raises_and_changes_nothing_witness:
  "put intHash defaultMap None (Some 7) = (defaultMap, Inl NullPointerException) \<and>
   get intHash defaultMap None = (defaultMap, Inl NullPointerException) \<and>
   remove intHash defaultMap None = (defaultMap, Inl NullPointerException) \<and>
   containsKey intHash defaultMap None = (defaultMap, Inl NullPointerException) \<and>
   putIfAbsent intHash defaultMap None (Some 7) = (defaultMap, Inl NullPointerException) \<and>
   replace intHash defaultMap None (Some 7) (Some 8) = (defaultMap, Inl NullPointerException) \<and>
   computeIfAbsent intHash defaultMap None (Some (\<lambda>k u. (Some k, Suc u))) (0::nat)
     = (defaultMap, 0, Inl NullPointerException)"
  using null_key_raises_and_changes_nothing
    [of intHash defaultMap "Some 7" "Some 7" "Some 8" "Some (\<lambda>k u. (Some k, Suc u))" "0::nat"]
  by simp

text \<open>
  C10.  A key that is present with the value \<open>null\<close> reads like an absent key:
  \<open>containsKey\<close> returns \<open>false\<close> and \<open>get\<close> returns \<open>null\<close>, as they do for a key with
  no entry, although the entry is in the table and the counter counts it.  Such an entry
  comes from \<open>put(k, null)\<close> and from a generator that returns \<open>null\<close>.
\<close>

theorem null_value_reads_as_absent:
  assumes "map_inv hc s"
  shows
    "(n \<in> set (entries s) \<and> key n = k \<and> val n = None \<longrightarrow>
        snd (containsKey hc s (Some k)) = Inr False \<and> snd (get hc s (Some k)) = Inr None) \<and>
     (k \<notin> key ` set (entries s) \<longrightarrow>
        snd (containsKey hc s (Some k)) = Inr False \<and> snd (get hc s (Some k)) = Inr None) \<and>
     size_method s = word_of_nat (length (entries s)) \<and>
     (k \<notin> key ` set (entries s) \<longrightarrow>
        \<lparr>hash = spread (hc k), key = k, val = None\<rparr> \<in> set (entries (fst (put hc s (Some k) None))) \<and>
        size_method (fst (put hc s (Some k) None)) = size_method s + 1 \<and>
        snd (containsKey hc (fst (put hc s (Some k) None)) (Some k)) = Inr False \<and>
        snd (get hc (fst (put hc s (Some k) None)) (Some k)) = Inr None) \<and>
     (k \<notin> key ` set (entries s) \<and> fst (f k u) = None \<longrightarrow>
        \<lparr>hash = spread (hc k), key = k, val = None\<rparr>
           \<in> set (entries (fst (computeIfAbsent hc s (Some k) (Some f) u))) \<and>
        size_method (fst (computeIfAbsent hc s (Some k) (Some f) u)) = size_method s + 1 \<and>
        snd (containsKey hc (fst (computeIfAbsent hc s (Some k) (Some f) u)) (Some k)) = Inr False \<and>
        snd (get hc (fst (computeIfAbsent hc s (Some k) (Some f) u)) (Some k)) = Inr None)"
proof (intro conjI impI)
  assume n: "n \<in> set (entries s) \<and> key n = k \<and> val n = None"
  then have l: "lookup hc s k = Some n" using lookup_entries [OF assms, of k n] by simp
  show "snd (containsKey hc s (Some k)) = Inr False"
    using containsKey_result [OF assms, of k] l n by simp
  show "snd (get hc s (Some k)) = Inr None"
    using get_result [OF assms, of k] l n by simp
next
  assume "k \<notin> key ` set (entries s)"
  then have l: "lookup hc s k = None" using absent_iff [OF assms, of k] by simp
  show "snd (containsKey hc s (Some k)) = Inr False"
    using containsKey_result [OF assms, of k] l by simp
  show "snd (get hc s (Some k)) = Inr None"
    using get_result [OF assms, of k] l by simp
next
  show "size_method s = word_of_nat (length (entries s))"
    using map_inv_size [OF assms] by (simp add: size_method_def)
next
  assume "k \<notin> key ` set (entries s)"
  then have l: "lookup hc s k = None" using absent_iff [OF assms, of k] by simp
  let ?s' = "fst (put hc s (Some k) None)"
  have inv': "map_inv hc ?s'" using assms by (rule put_inv)
  have l': "lookup hc ?s' k = Some \<lparr>hash = spread (hc k), key = k, val = None\<rparr>"
    using put_lookup [OF assms, of k None k] by simp
  show "\<lparr>hash = spread (hc k), key = k, val = None\<rparr> \<in> set (entries ?s')"
    using lookup_entries [OF inv', THEN iffD1, OF l'] by simp
  show "size_method ?s' = size_method s + 1"
    using put_absent(2) [OF assms l] by (simp add: size_method_def)
  show "snd (containsKey hc ?s' (Some k)) = Inr False"
    using containsKey_result [OF inv', of k] l' by simp
  show "snd (get hc ?s' (Some k)) = Inr None"
    using get_result [OF inv', of k] l' by simp
next
  assume a: "k \<notin> key ` set (entries s) \<and> fst (f k u) = None"
  then have l: "lookup hc s k = None" using absent_iff [OF assms, of k] by simp
  let ?s' = "fst (computeIfAbsent hc s (Some k) (Some f) u)"
  have inv': "map_inv hc ?s'" using assms by (rule computeIfAbsent_inv)
  have l': "lookup hc ?s' k = Some \<lparr>hash = spread (hc k), key = k, val = None\<rparr>"
    using computeIfAbsent_lookup_absent [OF assms l, of f u k] a by simp
  show "\<lparr>hash = spread (hc k), key = k, val = None\<rparr> \<in> set (entries ?s')"
    using lookup_entries [OF inv', THEN iffD1, OF l'] by simp
  show "size_method ?s' = size_method s + 1"
    using computeIfAbsent_absent(2) [OF assms l] by (simp add: size_method_def)
  show "snd (containsKey hc ?s' (Some k)) = Inr False"
    using containsKey_result [OF inv', of k] l' by simp
  show "snd (get hc ?s' (Some k)) = Inr None"
    using get_result [OF inv', of k] l' by simp
qed


theorem null_value_reads_as_absent_witness:
  "snd (containsKey intHash (fst (put intHash defaultMap (Some 5) None)) (Some 5)) = Inr False \<and>
   snd (get intHash (fst (put intHash defaultMap (Some 5) None)) (Some 5)) = Inr None \<and>
   size_method (fst (put intHash defaultMap (Some 5) None)) = 1 \<and>
   snd (containsKey intHash defaultMap (Some 5)) = Inr False \<and>
   snd (get intHash defaultMap (Some 5)) = Inr None \<and>
   size_method (fst (computeIfAbsent intHash defaultMap (Some 5) (Some (\<lambda>k u. (None, Suc u))) (0::nat)))
     = 1 \<and>
   snd (get intHash
          (fst (computeIfAbsent intHash defaultMap (Some 5) (Some (\<lambda>k u. (None, Suc u))) (0::nat)))
          (Some 5)) = Inr None"
proof -
  let ?n = "\<lparr>hash = spread (intHash 5), key = 5, val = None\<rparr> :: (jint, jint) Node"
  let ?s1 = "fst (put intHash defaultMap (Some 5) None)"
  have e: "entries defaultMap = []" by (simp add: defaultMap_def entries_def)
  have z: "size_method defaultMap = 0" by (simp add: defaultMap_def size_method_def)
  have inv1: "map_inv intHash ?s1" using defaultMap_inv by (rule put_inv)
  have n: "?n \<in> set (entries ?s1)" by code_simp
  show ?thesis
    using null_value_reads_as_absent [OF inv1, where n = ?n and k = 5]
      null_value_reads_as_absent [OF defaultMap_inv, where hc = intHash and n = ?n and k = 5
         and f = "\<lambda>k u. (None, Suc u)" and u = "0::nat"]
      n e z
    by simp
qed



text \<open>
  C4.  In every state that satisfies the map invariant, which every state a thread can
  reach does, at most one entry with a given key exists in the whole table, and each of
  \<open>put\<close>, \<open>putIfAbsent\<close>, \<open>computeIfAbsent\<close>, \<open>remove\<close>, \<open>replace\<close>, \<open>clear\<close> and
  \<open>resizeIfNeeded\<close> leads to a state that satisfies the invariant again, with any
  arguments and whatever the call returns or throws.  After any sequence of puts the
  counter is the number of distinct keys that the map held or that were put, so \<open>size()\<close>
  does not exceed that number; on a map that was empty it is at most the number of
  distinct keys put.
\<close>

theorem operations_keep_one_entry_per_key:
  fixes s :: "('k, 'v) StripedHashMap"
  shows
    "(map_inv hc s \<longrightarrow> uniqueKeys s) \<and>
     (map_inv hc s \<longrightarrow>
        map_inv hc (fst (put hc s key_arg v)) \<and>
        map_inv hc (fst (putIfAbsent hc s key_arg v)) \<and>
        map_inv hc (fst (computeIfAbsent hc s key_arg g u)) \<and>
        map_inv hc (fst (remove hc s key_arg)) \<and>
        map_inv hc (fst (replace hc s key_arg old new)) \<and>
        map_inv hc (clear s) \<and>
        map_inv hc (fst (resizeIfNeeded s))) \<and>
     (reachable hc s \<longrightarrow> map_inv hc s) \<and>
     (map_inv hc s \<longrightarrow>
        size_method (putAll hc s kvs)
          = word_of_nat (card (key ` set (entries s) \<union> fst ` set kvs)) \<and>
        sint (size_method (putAll hc s kvs))
          \<le> int (card (key ` set (entries s) \<union> fst ` set kvs))) \<and>
     (map_inv hc s \<and> entries s = [] \<longrightarrow>
        sint (size_method (putAll hc s kvs)) \<le> int (card (fst ` set kvs)))"
proof (intro conjI impI)
  assume inv: "map_inv hc s"
  show "uniqueKeys s"
    using map_inv_distinct_entries [OF inv] by (simp add: uniqueKeys_def)
  show "map_inv hc (fst (put hc s key_arg v))" using inv by (rule put_inv_any)
  show "map_inv hc (fst (putIfAbsent hc s key_arg v))" using inv by (rule putIfAbsent_inv_any)
  show "map_inv hc (fst (computeIfAbsent hc s key_arg g u))"
    using inv by (rule computeIfAbsent_inv_any)
  show "map_inv hc (fst (remove hc s key_arg))" using inv by (rule remove_inv_any)
  show "map_inv hc (fst (replace hc s key_arg old new))" using inv by (rule replace_inv_any)
  show "map_inv hc (clear s)" using inv by (rule clear_inv)
  show "map_inv hc (fst (resizeIfNeeded s))" using inv by (rule resizeIfNeeded_inv)
  have inv': "map_inv hc (putAll hc s kvs)" using inv by (rule putAll_inv)
  have "length (entries (putAll hc s kvs)) = card (key ` set (entries s) \<union> fst ` set kvs)"
    using length_entries [OF inv'] putAll_keys [OF inv, of kvs] entries_keys [OF inv]
    by simp
  then show sz: "size_method (putAll hc s kvs)
          = word_of_nat (card (key ` set (entries s) \<union> fst ` set kvs))"
    using map_inv_size [OF inv'] by (simp add: size_method_def)
  show "sint (size_method (putAll hc s kvs))
          \<le> int (card (key ` set (entries s) \<union> fst ` set kvs))"
    unfolding sz by (rule sint_of_nat_le)
next
  assume "reachable hc s"
  then show "map_inv hc s" by (rule reachable_inv)
next
  assume a: "map_inv hc s \<and> entries s = []"
  then have "size_method (putAll hc s kvs) = word_of_nat (card (fst ` set kvs))"
    using putAll_size [of hc s kvs] by (simp add: size_method_def)
  then show "sint (size_method (putAll hc s kvs)) \<le> int (card (fst ` set kvs))"
    using sint_of_nat_le [of "card (fst ` set kvs)"] by simp
qed

theorem operations_keep_one_entry_per_key_witness:
  "uniqueKeys (fst (put intHash defaultMap (Some 5) (Some 7))) \<and>
   map_inv intHash (fst (put intHash (fst (put intHash defaultMap (Some 5) (Some 7))) (Some 5) (Some 8))) \<and>
   map_inv intHash (fst (remove intHash (fst (put intHash defaultMap (Some 5) (Some 7))) (Some 5))) \<and>
   map_inv intHash (clear (fst (put intHash defaultMap (Some 5) (Some 7)))) \<and>
   size_method (putAll intHash defaultMap [(1, Some 10), (2, Some 20), (1, Some 30)]) = 2 \<and>
   sint (size_method (putAll intHash defaultMap [(1, Some 10), (2, Some 20), (1, Some 30)])) \<le> 2"
proof -
  let ?s1 = "fst (put intHash defaultMap (Some 5) (Some 7))"
  let ?kvs = "[(1, Some 10), (2, Some 20), (1, Some 30)] :: (jint \<times> jint option) list"
  have r0: "reachable intHash defaultMap"
    using defaultMap_eq unfolding newStripedHashMap_default_def by (rule r_new)
  have r1: "reachable intHash ?s1" using r0 by (rule r_put)
  have e: "entries defaultMap = []" by (simp add: defaultMap_def entries_def)
  have "{1, 2, 1} = {1, 2 :: jint}" by auto
  then have c: "card (fst ` set ?kvs) = 2" by simp
  note a = operations_keep_one_entry_per_key
      [where hc = intHash and s = ?s1 and key_arg = "Some 5" and v = "Some 8"
         and g = "None :: (jint \<Rightarrow> unit \<Rightarrow> jint option \<times> unit) option" and u = "()"
         and old = None and new = None and kvs = "[]"]
  note b = operations_keep_one_entry_per_key
      [where hc = intHash and s = defaultMap and key_arg = "Some 5" and v = "Some 8"
         and g = "None :: (jint \<Rightarrow> unit \<Rightarrow> jint option \<times> unit) option" and u = "()"
         and old = None and new = None and kvs = ?kvs]
  have i1: "map_inv intHash ?s1" using a r1 by blast
  have 1: "uniqueKeys ?s1" using a i1 by blast
  have 2: "map_inv intHash (fst (put intHash ?s1 (Some 5) (Some 8)))" using a i1 by blast
  have 3: "map_inv intHash (fst (remove intHash ?s1 (Some 5)))" using a i1 by blast
  have 4: "map_inv intHash (clear ?s1)" using a i1 by blast
  have 5: "size_method (putAll intHash defaultMap ?kvs) = 2"
    using b defaultMap_inv [of intHash] e c by simp
  have 6: "sint (size_method (putAll intHash defaultMap ?kvs)) \<le> 2"
    using b defaultMap_inv [of intHash] e c by simp
  show ?thesis using 1 2 3 4 5 6 by (intro conjI)
qed

text \<open>
  C1.  When \<open>resizeIfNeeded\<close> finds the counter over the threshold and returns normally,
  the new bucket array has twice the length, it holds the same entries as the old one
  (none lost, none twice), no key appears twice, and \<open>size()\<close> is unchanged; every entry
  of the old table sits in the bucket \<open>hash & (newCapacity - 1)\<close> of the new one, \<open>get\<close>
  returns its value, and \<open>get\<close> returns for every key what it returned before.  In
  particular, putting \<open>N\<close> distinct keys into a map with no entries, past any number of
  growths, leaves \<open>size()\<close> equal to \<open>N\<close> and every key retrievable with its value.
\<close>

theorem resize_keeps_every_entry:
  fixes s :: "('k, 'v) StripedHashMap"
  shows
    "(map_inv hc s \<and> needsResize s (arrayLength (table s)) (size_field s) \<and>
      snd (resizeIfNeeded s) = Inr () \<longrightarrow>
        length (table (fst (resizeIfNeeded s))) = 2 * length (table s) \<and>
        mset (entries (fst (resizeIfNeeded s))) = mset (entries s) \<and>
        uniqueKeys (fst (resizeIfNeeded s)) \<and>
        size_method (fst (resizeIfNeeded s)) = size_method s \<and>
        (\<forall>n \<in> set (entries s).
            n \<in> set (table (fst (resizeIfNeeded s)) !
                       nat (sint (indexFor (hash n)
                                    (arrayLength (table (fst (resizeIfNeeded s))))))) \<and>
            snd (get hc (fst (resizeIfNeeded s)) (Some (key n))) = Inr (val n)) \<and>
        (\<forall>k. snd (get hc (fst (resizeIfNeeded s)) (Some k)) = snd (get hc s (Some k)))) \<and>
     (map_inv hc s \<and> entries s = [] \<and> distinct (map fst kvs) \<longrightarrow>
        size_method (putAll hc s kvs) = word_of_nat (length kvs) \<and>
        (length kvs < 2 ^ 31 \<longrightarrow> sint (size_method (putAll hc s kvs)) = int (length kvs)) \<and>
        (\<forall>(k, v) \<in> set kvs. snd (get hc (putAll hc s kvs) (Some k)) = Inr v))"
proof (intro conjI impI ballI allI)
  assume a: "map_inv hc s \<and> needsResize s (arrayLength (table s)) (size_field s) \<and>
      snd (resizeIfNeeded s) = Inr ()"
  let ?s' = "fst (resizeIfNeeded s)"
  have inv: "map_inv hc s" using a by simp
  have inv': "map_inv hc ?s'" using inv by (rule resizeIfNeeded_inv)
  show "length (table ?s') = 2 * length (table s)"
    using resizeIfNeeded_doubles(1) [of hc s] a by simp
  show m: "mset (entries ?s') = mset (entries s)"
    using inv by (rule resizeIfNeeded_entries)
  show "uniqueKeys ?s'"
    using map_inv_distinct_entries [OF inv'] by (simp add: uniqueKeys_def)
  show "size_method ?s' = size_method s" by (simp add: size_method_def)
  show "snd (get hc ?s' (Some k)) = snd (get hc s (Some k))" for k
    using inv by (rule resizeIfNeeded_get)
  fix n assume n: "n \<in> set (entries s)"
  then have n': "n \<in> set (entries ?s')" using m by (metis set_mset_mset)
  show "n \<in> set (table ?s' ! nat (sint (indexFor (hash n) (arrayLength (table ?s')))))"
    using map_inv_entry [OF inv' n'] by (simp add: bucketOf_def)
  show "snd (get hc ?s' (Some (key n))) = Inr (val n)"
    using inv' n' by (rule get_entry)
next
  assume a: "map_inv hc s \<and> entries s = [] \<and> distinct (map fst kvs)"
  then have c: "card (fst ` set kvs) = length kvs"
    using distinct_card [of "map fst kvs"] by simp
  show sz: "size_method (putAll hc s kvs) = word_of_nat (length kvs)"
    using putAll_size [of hc s kvs] a c by (simp add: size_method_def)
  show "sint (size_method (putAll hc s kvs)) = int (length kvs)" if "length kvs < 2 ^ 31"
    unfolding sz using that by (rule sint_of_nat)
  fix kv assume kv: "kv \<in> set kvs"
  show "case kv of (k, v) \<Rightarrow> snd (get hc (putAll hc s kvs) (Some k)) = Inr v"
    using putAll_get [of hc s kvs "fst kv" "snd kv"] a kv by (cases kv) simp
qed

theorem resize_keeps_every_entry_witness:
  "needsResize
     (insertNode intHash
        (fst (put intHash \<lparr>table = replicate 2 [], numStripes = 16, loadFactor = Finite 3 (- 2),
                             size_field = 0, lockLog = []\<rparr> (Some 1) (Some (11 :: jint))))
        0 (Some 10))
     2 2 \<and>
   length (table (fst (resizeIfNeeded
     (insertNode intHash
        (fst (put intHash \<lparr>table = replicate 2 [], numStripes = 16, loadFactor = Finite 3 (- 2),
                             size_field = 0, lockLog = []\<rparr> (Some 1) (Some (11 :: jint))))
        0 (Some 10))))) = 4 \<and>
   snd (get intHash (fst (resizeIfNeeded
     (insertNode intHash
        (fst (put intHash \<lparr>table = replicate 2 [], numStripes = 16, loadFactor = Finite 3 (- 2),
                             size_field = 0, lockLog = []\<rparr> (Some 1) (Some (11 :: jint))))
        0 (Some 10)))) (Some 1)) = Inr (Some 11) \<and>
   snd (get intHash (fst (resizeIfNeeded
     (insertNode intHash
        (fst (put intHash \<lparr>table = replicate 2 [], numStripes = 16, loadFactor = Finite 3 (- 2),
                             size_field = 0, lockLog = []\<rparr> (Some 1) (Some (11 :: jint))))
        0 (Some 10)))) (Some 0)) = Inr (Some 10) \<and>
   size_method (putAll intHash defaultMap
      [(1, Some 101), (2, Some 102), (3, Some 103), (4, Some 104), (5, Some 105),
       (6, Some 106), (7, Some 107), (8, Some 108), (9, Some 109), (10, Some 110),
       (11, Some 111), (12, Some 112), (13, Some 113), (14, Some 114),
       (15, Some 115), (16, Some 116), (17, Some 117), (18, Some 118),
       (19, Some 119), (20, Some 120)]) = 20 \<and>
   snd (get intHash (putAll intHash defaultMap
      [(1, Some 101), (2, Some 102), (3, Some 103), (4, Some 104), (5, Some 105),
       (6, Some 106), (7, Some 107), (8, Some 108), (9, Some 109), (10, Some 110),
       (11, Some 111), (12, Some 112), (13, Some 113), (14, Some 114),
       (15, Some 115), (16, Some 116), (17, Some 117), (18, Some 118),
       (19, Some 119), (20, Some 120)]) (Some 13)) = Inr (Some 113) \<and>
   length (table (putAll intHash defaultMap
      [(1, Some 101), (2, Some 102), (3, Some 103), (4, Some 104), (5, Some 105),
       (6, Some 106), (7, Some 107), (8, Some 108), (9, Some 109), (10, Some 110),
       (11, Some 111), (12, Some 112), (13, Some 113), (14, Some 114),
       (15, Some 115), (16, Some 116), (17, Some 117), (18, Some 118),
       (19, Some 119), (20, Some 120)])) = 32"
proof -
  let ?e = "\<lparr>table = replicate 2 [], numStripes = 16, loadFactor = Finite 3 (- 2),
             size_field = 0, lockLog = []\<rparr> :: (jint, jint) StripedHashMap"
  let ?s1 = "fst (put intHash ?e (Some 1) (Some 11))"
  let ?s = "insertNode intHash ?s1 0 (Some 10)"
  let ?kvs = "[(1, Some 101), (2, Some 102), (3, Some 103), (4, Some 104), (5, Some 105),
       (6, Some 106), (7, Some 107), (8, Some 108), (9, Some 109), (10, Some 110),
       (11, Some 111), (12, Some 112), (13, Some 113), (14, Some 114),
       (15, Some 115), (16, Some 116), (17, Some 117), (18, Some 118),
       (19, Some 119), (20, Some 120)] :: (jint \<times> jint option) list"
  have "\<exists>j \<in> {1..30}. (2::nat) = 2 ^ j" by (rule bexI [of _ 1]) simp_all
  moreover have "\<exists>j \<in> {0..30}. (16 :: 32 word) = 2 ^ j" by (rule bexI [of _ 4]) simp_all
  ultimately have "map_inv intHash ?e" by (rule empty_table_inv)
  then have inv1: "map_inv intHash ?s1" by (rule put_inv)
  have l: "lookup intHash ?s1 0 = None" by code_simp
  have inv: "map_inv intHash ?s" using inv1 l by (rule insertNode_inv)
  have al: "arrayLength (table ?s) = 2" by code_simp
  have sf: "size_field ?s = 2" by code_simp
  have nr: "needsResize ?s 2 2" by code_simp
  have ok: "snd (resizeIfNeeded ?s) = Inr ()" by code_simp
  have len: "length (table ?s) = 2" by code_simp
  have len1: "length (table ?s1) = 2" by code_simp
  have es: "entries ?s = [\<lparr>hash = 0, key = 0, val = Some 10\<rparr>, \<lparr>hash = 1, key = 1, val = Some 11\<rparr>]"
    by code_simp
  have hyp: "map_inv intHash ?s \<and> needsResize ?s (arrayLength (table ?s)) (size_field ?s) \<and>
      snd (resizeIfNeeded ?s) = Inr ()"
    unfolding al sf using inv nr ok by (intro conjI)
  note r = resize_keeps_every_entry [where hc = intHash and s = ?s and kvs = "[]",
      THEN conjunct1, THEN mp, OF hyp]
  have r1: "length (table (fst (resizeIfNeeded ?s))) = 4"
    using r [THEN conjunct1] unfolding len by simp
  have g: "\<forall>k. snd (get intHash (fst (resizeIfNeeded ?s)) (Some k)) = snd (get intHash ?s (Some k))"
    using r by blast
  have g1: "snd (get intHash ?s (Some 1)) = Inr (Some 11)" by code_simp
  have g0: "snd (get intHash ?s (Some 0)) = Inr (Some 10)" by code_simp
  have r2: "snd (get intHash (fst (resizeIfNeeded ?s)) (Some 1)) = Inr (Some 11)"
    using g g1 by simp
  have r3: "snd (get intHash (fst (resizeIfNeeded ?s)) (Some 0)) = Inr (Some 10)"
    using g g0 by simp
  have e: "entries defaultMap = []" by (simp add: defaultMap_def entries_def)
  have d: "distinct (map fst ?kvs)" by simp
  note p = resize_keeps_every_entry [where hc = intHash and s = defaultMap and kvs = ?kvs]
  have p1: "size_method (putAll intHash defaultMap ?kvs) = 20"
    using p defaultMap_inv [of intHash] e d by simp
  have p2: "snd (get intHash (putAll intHash defaultMap ?kvs) (Some 13)) = Inr (Some 113)"
    using p defaultMap_inv [of intHash] e d by simp
  have p3: "length (table (putAll intHash defaultMap ?kvs)) = 32" by code_simp
  show ?thesis using nr r1 r2 r3 p1 p2 p3 by (intro conjI)
qed

text \<open>
  C7 (amended).  When the constructor returns a map, its capacity is the least power of
  two that is at least \<open>initialCapacity\<close> and at least \<open>2\<close>, for an \<open>initialCapacity\<close> of
  at most \<open>2 ^ 30\<close>, and its \<open>numStripes\<close> is the least power of two that is at least the
  argument, for an argument of at most \<open>2 ^ 30\<close>: one stripe stays one stripe, there is no
  minimum of two.  In every state a thread can reach the capacity is a power of two
  between \<open>2\<close> and \<open>2 ^ 30\<close> and \<open>numStripes\<close> is a power of two between \<open>1\<close> and
  \<open>2 ^ 30\<close>.
\<close>

theorem capacity_and_stripes_are_powers_of_two:
  fixes s :: "('k, 'v) StripedHashMap"
  shows
    "(newStripedHashMap ic lf ns = Inr s \<longrightarrow>
        (sint ic \<le> 2 ^ 30 \<longrightarrow> leastPowerOfTwo (int (length (table s))) (max 2 (sint ic))) \<and>
        (sint ns \<le> 2 ^ 30 \<longrightarrow> leastPowerOfTwo (sint (numStripes s)) (sint ns))) \<and>
     (reachable hc s \<longrightarrow>
        (\<exists>j \<in> {1..30}. length (table s) = 2 ^ j) \<and>
        (\<exists>j \<in> {0..30}. numStripes s = 2 ^ j \<and> sint (numStripes s) = 2 ^ j))"
proof (intro conjI impI)
  assume new: "newStripedHashMap ic lf ns = Inr s"
  then have ok: "0 < sint ic" "0 < sint ns"
    by (auto simp: newStripedHashMap_def split: if_splits)
  have t: "length (table s) = nat (sint (roundUpToPowerOfTwo ic))"
    and n: "numStripes s = (if highestOneBit ns = ns then ns else roundUpToPowerOfTwo ns)"
    using new by (auto simp: newStripedHashMap_def Let_def split: if_splits)
  show "leastPowerOfTwo (int (length (table s))) (max 2 (sint ic))" if le: "sint ic \<le> 2 ^ 30"
  proof (cases "sint ic = 1")
    case True
    then have "sint ic = sint (1 :: 32 word)" by simp
    then have "ic = 1" by (rule signed_word_eqI)
    then have "int (length (table s)) = 2 ^ 1" using t roundUp_one by simp
    moreover have "max 2 (sint ic) \<le> 2 ^ 1" using True by simp
    moreover have "(1::nat) = 0 \<or> 2 ^ (1 - 1) < max 2 (sint ic)" by simp
    ultimately show ?thesis by (rule leastPowerOfTwoI)
  next
    case False
    then have "2 \<le> sint ic" using ok(1) by simp
    then obtain j where j: "j \<in> {1..30}" "roundUpToPowerOfTwo ic = 2 ^ j"
      "sint ic \<le> 2 ^ j" "2 ^ (j - 1) < sint ic"
      using roundUp_small [of ic] le by blast
    have "sint (roundUpToPowerOfTwo ic) = 2 ^ j"
      unfolding j(2) using j(1) by (intro sint_pow2) simp
    then have l: "int (length (table s)) = 2 ^ j" using t by simp
    have "(2::int) ^ 1 \<le> 2 ^ j" using j(1) by (intro power_increasing) simp_all
    then have m1: "max 2 (sint ic) \<le> 2 ^ j" using j(3) by simp
    have "2 ^ (j - 1) < max 2 (sint ic)"
      using j(4) by (rule less_le_trans) simp
    then have m2: "j = 0 \<or> 2 ^ (j - 1) < max 2 (sint ic)" by (rule disjI2)
    show ?thesis using l m1 m2 by (rule leastPowerOfTwoI)
  qed
  show "leastPowerOfTwo (sint (numStripes s)) (sint ns)" if le: "sint ns \<le> 2 ^ 30"
  proof -
    obtain j where j: "j \<in> {0..30}" "numStripes s = 2 ^ j" "sint ns \<le> 2 ^ j"
      "j = 0 \<or> 2 ^ (j - 1) < sint ns"
      using stripes_small [of ns] ok(2) le n by auto
    have "sint (numStripes s) = 2 ^ j"
      unfolding j(2) using j(1) by (intro sint_pow2) simp
    then show ?thesis using j(3,4) by (rule leastPowerOfTwoI)
  qed
next
  assume "reachable hc s"
  then have inv: "map_inv hc s" by (rule reachable_inv)
  show "\<exists>j \<in> {1..30}. length (table s) = 2 ^ j"
    using map_inv_capacity [OF inv] by auto
  obtain j where j: "j \<le> 30" "numStripes s = 2 ^ j"
    using map_inv_stripes [OF inv] by blast
  have "sint (numStripes s) = 2 ^ j" unfolding j(2) using j(1) by (rule sint_pow2)
  then show "\<exists>j \<in> {0..30}. numStripes s = 2 ^ j \<and> sint (numStripes s) = 2 ^ j"
    using j by (intro bexI [of _ j]) simp_all
qed

theorem capacity_and_stripes_are_powers_of_two_witness:
  "leastPowerOfTwo 16 10 \<and> leastPowerOfTwo 1 1 \<and> leastPowerOfTwo 8 5 \<and>
   (\<exists>j \<in> {1..30}. length (table (fst (put intHash defaultMap (Some 5) (Some 7)))) = 2 ^ j) \<and>
   (\<exists>j \<in> {0..30}. numStripes (fst (put intHash defaultMap (Some 5) (Some 7))) = 2 ^ j \<and>
       sint (numStripes (fst (put intHash defaultMap (Some 5) (Some 7)))) = 2 ^ j)"
proof -
  let ?a = "\<lparr>table = replicate 16 [], numStripes = 1, loadFactor = Finite 3 (- 2),
             size_field = 0, lockLog = []\<rparr> :: (jint, jint) StripedHashMap"
  have a: "newStripedHashMap 10 (Finite 3 (- 2)) 1 = Inr ?a" by code_simp
  let ?b = "\<lparr>table = replicate 2 [], numStripes = 8, loadFactor = Finite 3 (- 2),
             size_field = 0, lockLog = []\<rparr> :: (jint, jint) StripedHashMap"
  have b: "newStripedHashMap 1 (Finite 3 (- 2)) 5 = Inr ?b" by code_simp
  have r0: "reachable intHash defaultMap"
    using defaultMap_eq unfolding newStripedHashMap_default_def by (rule r_new)
  have r1: "reachable intHash (fst (put intHash defaultMap (Some 5) (Some 7)))"
    using r0 by (rule r_put)
  have 1: "leastPowerOfTwo 16 10 \<and> leastPowerOfTwo 1 1"
    using capacity_and_stripes_are_powers_of_two
      [where ic = 10 and lf = "Finite 3 (- 2)" and ns = 1 and s = ?a and hc = intHash] a
    by simp
  have 2: "leastPowerOfTwo 8 5"
    using capacity_and_stripes_are_powers_of_two
      [where ic = 1 and lf = "Finite 3 (- 2)" and ns = 5 and s = ?b and hc = intHash] b
    by simp
  have 3: "(\<exists>j \<in> {1..30}. length (table (fst (put intHash defaultMap (Some 5) (Some 7)))) = 2 ^ j) \<and>
   (\<exists>j \<in> {0..30}. numStripes (fst (put intHash defaultMap (Some 5) (Some 7))) = 2 ^ j \<and>
       sint (numStripes (fst (put intHash defaultMap (Some 5) (Some 7)))) = 2 ^ j)"
    using capacity_and_stripes_are_powers_of_two
      [where ic = 1 and lf = "Finite 3 (- 2)" and ns = 5
         and s = "fst (put intHash defaultMap (Some 5) (Some 7))" and hc = intHash] r1
    by blast
  show ?thesis using 1 2 3 by blast
qed

theorem constructor_keeps_one_stripe:
  "(newStripedHashMap 16 (Finite 3 (- 2)) 1 :: exn + (jint, jint) StripedHashMap) =
     Inr \<lparr>table = replicate 16 [], numStripes = 1, loadFactor = Finite 3 (- 2),
          size_field = 0, lockLog = []\<rparr>"
  by code_simp

text \<open>
  C8.  \<open>computeIfAbsent\<close> at the largest capacity.  On the map
  \<open>new StripedHashMap<Integer, Integer>(1 << 30, 0x1p-40f, 16)\<close> the call
  \<open>computeIfAbsent(1, f)\<close> runs the generator once, links the new entry and increments
  the counter, and then throws \<open>IllegalMonitorStateException\<close> where it was to return
  \<open>f(1)\<close>: the counter is over the threshold, \<open>resizeIfNeeded\<close> throws
  \<open>NegativeArraySizeException\<close> on the doubled length \<open>1 << 31\<close>, and the \<open>finally\<close> block
  of \<open>computeIfAbsent\<close> unlocks the stripe lock that was released before the resize.
\<close>

theorem computeIfAbsent_throws_at_largest_capacity:
  "newStripedHashMap 1073741824 (Finite 1 (- 40)) 16 = Inr maxMap \<and>
   entries maxMap = [] \<and>
   snd (snd (computeIfAbsent intHash maxMap (Some 1) (Some (\<lambda>k u. (Some k, Suc u))) 0))
     = Inl IllegalMonitorStateException \<and>
   fst (snd (computeIfAbsent intHash maxMap (Some 1) (Some (\<lambda>k u. (Some k, Suc u))) 0)) = 1 \<and>
   size_method (fst (computeIfAbsent intHash maxMap (Some 1) (Some (\<lambda>k u. (Some k, Suc u))) 0))
     = 1 \<and>
   snd (get intHash
          (fst (computeIfAbsent intHash maxMap (Some 1) (Some (\<lambda>k u. (Some k, Suc u))) 0))
          (Some 1)) = Inr (Some 1)"
proof -
  let ?f = "\<lambda>(k :: jint) (u :: nat). (Some k, Suc u)"
  let ?c = "computeIfAbsent intHash maxMap (Some 1) (Some ?f) 0"
  have l: "lookup intHash maxMap 1 = None"
    using maxMap_inv maxMap_fields(2) by (rule lookup_empty)
  note c = computeIfAbsent_absent [OF maxMap_inv l, of ?f 0]
  have inv': "map_inv intHash (fst ?c)" using maxMap_inv by (rule computeIfAbsent_inv)
  have "lookup intHash (fst ?c) 1 = Some \<lparr>hash = spread (intHash 1), key = 1, val = Some 1\<rparr>"
    using computeIfAbsent_lookup_absent [OF maxMap_inv l, of ?f 0 1] by simp
  then have g: "snd (get intHash (fst ?c) (Some 1)) = Inr (Some 1)"
    using get_result [OF inv', of 1] by simp
  have t: "snd (snd ?c) = Inl IllegalMonitorStateException"
    using c(6) maxMap_needsResize by (simp add: maxMap_fields)
  have u: "fst (snd ?c) = 1" using c(5) by simp
  have z: "size_method (fst ?c) = 1" using c(2) by (simp add: size_method_def maxMap_fields)
  show ?thesis using maxMap_new maxMap_fields(2) t u z g by (intro conjI)
qed

text \<open>
  C2.  \<open>put\<close> at the largest capacity.  On the map
  \<open>new StripedHashMap<Integer, Integer>(1 << 30, 0x1p-40f, 16)\<close> the first \<open>put\<close> brings
  the counter to \<open>1\<close>, over the threshold \<open>(int) (capacity * loadFactor) = 0\<close>, so the
  resize is triggered; the capacity is not doubled, it stays \<open>1 << 30\<close>, and \<open>put\<close> throws
  \<open>IllegalMonitorStateException\<close>, with the entry in the table and counted.
\<close>

theorem put_at_largest_capacity_does_not_grow:
  "newStripedHashMap 1073741824 (Finite 1 (- 40)) 16 = Inr maxMap \<and>
   needsResize maxMap (arrayLength (table maxMap)) (size_field maxMap + 1) \<and>
   snd (resizeIfNeeded (insertNode intHash maxMap 1 (Some 1)))
     = Inl NegativeArraySizeException \<and>
   snd (put intHash maxMap (Some 1) (Some 1)) = Inl IllegalMonitorStateException \<and>
   length (table (fst (put intHash maxMap (Some 1) (Some 1)))) = 2 ^ 30 \<and>
   size_method (fst (put intHash maxMap (Some 1) (Some 1))) = 1"
proof -
  let ?p = "put intHash maxMap (Some 1) (Some 1)"
  let ?i = "insertNode intHash maxMap 1 (Some 1)"
  have l: "lookup intHash maxMap 1 = None"
    using maxMap_inv maxMap_fields(2) by (rule lookup_empty)
  note p = put_absent [OF maxMap_inv l, of "Some 1"]
  have li: "length (table ?i) = 2 ^ 30" by (simp add: maxMap_fields)
  have ni: "needsResize ?i (arrayLength (table ?i)) (size_field ?i)"
    using maxMap_needsResize by (simp add: needsResize_def arrayLength_def maxMap_fields)
  have r: "snd (resizeIfNeeded ?i) = Inl NegativeArraySizeException"
    using resizeIfNeeded_max [OF li ni] by simp
  have t: "snd ?p = Inl IllegalMonitorStateException"
    using p(5) maxMap_needsResize by (simp add: maxMap_fields)
  have "length (table (grow ?i)) = 2 ^ 30" using li by (simp add: grow_def)
  then have n: "length (table (fst ?p)) = 2 ^ 30" using p(1) by simp
  have z: "size_method (fst ?p) = 1" using p(2) by (simp add: size_method_def maxMap_fields)
  show ?thesis using maxMap_new maxMap_needsResize r t n z by (intro conjI)
qed

end
